theory Spec2Isabelle
  imports Main "HOL-Library.Word"
begin

unbundle bit_operations_syntax

section \<open>CTGEngine: integer addressing (src/core/ctgEngine.ts)\<close>

text \<open>
  A TypeScript \<open>number\<close> that passes \<open>Number.isInteger\<close> is modelled as an \<open>int\<close>
  (an argument is an integer that is a double). A product, sum or difference of doubles is
  the exact result rounded to the nearest double, ties to the even significand:
  \<open>roundDouble\<close>, the identity up to \<open>2^53\<close> (overflow to \<open>Infinity\<close>, from
  \<open>2^1024\<close> on, is not modelled). The bitwise operators
  \<open>&\<close> and \<open>>>\<close> first convert their operand with ToInt32 (the value modulo
  \<open>2^32\<close>, read as a signed 32-bit integer); that conversion is written out.
  A result \<open>None\<close> of type \<open>_ option\<close> means that the call does not return;
  \<open>Some (Inl e)\<close> is a thrown \<open>Error\<close>, \<open>Some (Inr v)\<close> a returned value.
\<close>

datatype error = InvalidId | NoAvailableChild | RootRemovalForbidden

definition MAX_SAFE_INTEGER :: int where
  "MAX_SAFE_INTEGER = 2 ^ 53 - 1"

text \<open>The number of binary digits of \<open>n\<close>.\<close>
function bitLength :: "int \<Rightarrow> nat" where
  "bitLength n = (if n \<le> 0 then 0 else Suc (bitLength (n div 2)))"
  by pat_completeness auto

termination
  by (relation "measure nat") auto

declare bitLength.simps [simp del]

text \<open>
  Rounding of an integer to the nearest double: a magnitude of more than 53 binary digits
  keeps its leading 53 digits \<open>q\<close>, rounded up when the rest \<open>r\<close> is more than half a
  unit of \<open>q\<close>, or exactly half and \<open>q\<close> is odd.
\<close>
definition roundDouble :: "int \<Rightarrow> int" where
  "roundDouble x =
     (let a = \<bar>x\<bar> in
      if a < 2 ^ 53 then x
      else
        (let e = bitLength a - 53;
             q = a div 2 ^ e;
             r = a mod 2 ^ e;
             half = 2 ^ (e - 1);
             q' = (if r < half then q else if r > half then q + 1
                   else if even q then q else q + 1)
         in sgn x * (q' * 2 ^ e)))"

definition toInt32 :: "int \<Rightarrow> int" where
  "toInt32 n = (let m = n mod 2 ^ 32 in if m \<ge> 2 ^ 31 then m - 2 ^ 32 else m)"

text \<open>\<open>n & 1\<close>\<close>
definition bitAnd1 :: "int \<Rightarrow> int" where
  "bitAnd1 n = toInt32 n AND 1"

text \<open>\<open>n >> 1\<close>: the sign-propagating shift of the 32-bit value.\<close>
definition shr1 :: "int \<Rightarrow> int" where
  "shr1 n = drop_bit 1 (toInt32 n)"

text \<open>\<open>a % b\<close>: the remainder takes the sign of the dividend.\<close>
definition jsRem :: "int \<Rightarrow> int \<Rightarrow> int" where
  "jsRem a b = sgn a * (\<bar>a\<bar> mod \<bar>b\<bar>)"

definition validatePositiveInteger :: "int \<Rightarrow> error + unit" where
  "validatePositiveInteger n = (if n < 1 then Inl InvalidId else Inr ())"

text \<open>The loop \<open>while ((n & 1) === 0) n = n >> 1\<close> of \<open>getOddPart\<close>.\<close>
partial_function (option) oddPartLoop :: "int \<Rightarrow> int option" where
  "oddPartLoop n = (if bitAnd1 n = 0 then oddPartLoop (shr1 n) else Some n)"

declare oddPartLoop.simps [code]

definition getOddPart :: "int \<Rightarrow> (error + int) option" where
  "getOddPart n =
     (case validatePositiveInteger n of
        Inl e \<Rightarrow> Some (Inl e)
      | Inr _ \<Rightarrow> map_option Inr (oddPartLoop n))"

text \<open>\<open>getParent\<close> returns \<open>number | null\<close>: the inner option is \<open>null\<close>.\<close>
definition getParent :: "int \<Rightarrow> (error + int option) option" where
  "getParent n =
     (case validatePositiveInteger n of
        Inl e \<Rightarrow> Some (Inl e)
      | Inr _ \<Rightarrow>
          if n = 1 then Some (Inr None)
          else if bitAnd1 n = 0 then Some (Inr (Some (shr1 n)))
          else (let threeNPlusOne = roundDouble (roundDouble (3 * n) + 1) in
                case getOddPart threeNPlusOne of
                  None \<Rightarrow> None
                | Some (Inl e) \<Rightarrow> Some (Inl e)
                | Some (Inr m) \<Rightarrow> Some (Inr (Some m))))"

text \<open>The loop \<open>while (current !== 1)\<close> of \<open>getAncestryChain\<close>.\<close>
partial_function (option) chainLoop :: "int \<Rightarrow> int list \<Rightarrow> (error + int list) option" where
  "chainLoop current chain =
     (if current \<noteq> 1 then
        (case getParent current of
           None \<Rightarrow> None
         | Some (Inl e) \<Rightarrow> Some (Inl e)
         | Some (Inr None) \<Rightarrow> Some (Inr chain)
         | Some (Inr (Some p)) \<Rightarrow> chainLoop p (chain @ [p]))
      else Some (Inr chain))"

declare chainLoop.simps [code]

definition getAncestryChain :: "int \<Rightarrow> (error + int list) option" where
  "getAncestryChain n =
     (case validatePositiveInteger n of
        Inl e \<Rightarrow> Some (Inl e)
      | Inr _ \<Rightarrow> chainLoop n [n])"

text \<open>One iteration of the \<open>for\<close> loop of \<open>findAdmissibleAssociates\<close>, at exponent \<open>k\<close>.\<close>
definition associateStep :: "int \<Rightarrow> nat \<Rightarrow> int list \<Rightarrow> (error + int list) option" where
  "associateStep parentID k children =
     (let numerator = roundDouble (roundDouble (2 ^ k * parentID) - 1) in
      if jsRem numerator 3 = 0 then
        (let candidate = numerator div 3 in
         if candidate > 0 \<and> bitAnd1 candidate = 1 then
           (case getParent candidate of
              None \<Rightarrow> None
            | Some (Inl e) \<Rightarrow> Some (Inl e)
            | Some (Inr r) \<Rightarrow>
                Some (Inr (if r = Some parentID then children @ [candidate] else children)))
         else Some (Inr children))
      else Some (Inr children))"

fun associatesLoop :: "int \<Rightarrow> nat list \<Rightarrow> int list \<Rightarrow> (error + int list) option" where
  "associatesLoop parentID [] children = Some (Inr children)"
| "associatesLoop parentID (k # ks) children =
     (case associateStep parentID k children of
        None \<Rightarrow> None
      | Some (Inl e) \<Rightarrow> Some (Inl e)
      | Some (Inr children') \<Rightarrow> associatesLoop parentID ks children')"

definition findAdmissibleAssociates :: "int \<Rightarrow> nat \<Rightarrow> (error + int list) option" where
  "findAdmissibleAssociates parentID maxSearch =
     (case validatePositiveInteger parentID of
        Inl e \<Rightarrow> Some (Inl e)
      | Inr _ \<Rightarrow>
          (case associatesLoop parentID [1..<Suc maxSearch] [] of
             None \<Rightarrow> None
           | Some (Inl e) \<Rightarrow> Some (Inl e)
           | Some (Inr children) \<Rightarrow> Some (Inr (sort children))))"

definition mintNextChild :: "int \<Rightarrow> int list \<Rightarrow> (error + int) option" where
  "mintNextChild parentID currentChildren =
     (case validatePositiveInteger parentID of
        Inl e \<Rightarrow> Some (Inl e)
      | Inr _ \<Rightarrow>
          (case findAdmissibleAssociates parentID 30 of
             None \<Rightarrow> None
           | Some (Inl e) \<Rightarrow> Some (Inl e)
           | Some (Inr admissible) \<Rightarrow>
               (case find (\<lambda>candidate. candidate \<notin> set currentChildren) admissible of
                  Some candidate \<Rightarrow> Some (Inr candidate)
                | None \<Rightarrow> Some (Inl NoAvailableChild))))"

definition mintNextVersion :: "int \<Rightarrow> error + int" where
  "mintNextVersion n =
     (case validatePositiveInteger n of
        Inl e \<Rightarrow> Inl e
      | Inr _ \<Rightarrow> Inr (roundDouble (n * 2)))"

text \<open>
  A list \<open>[n, \<dots>, 1]\<close> in which every element but the last is different from 1 and
  is followed by its \<open>getParent\<close>: the walk of \<open>getAncestryChain\<close> that reaches 1.
\<close>
fun parentWalk :: "int list \<Rightarrow> bool" where
  "parentWalk [] = False"
| "parentWalk [x] = (x = 1)"
| "parentWalk (x # y # zs) = (x \<noteq> 1 \<and> getParent x = Some (Inr (Some y)) \<and> parentWalk (y # zs))"

section \<open>DTree: the dual-coordinate tree (src/core/dtree.ts)\<close>

text \<open>
  Nodes are mutable objects that refer to each other (parent, children, siblings), and
  the cross-reference index refers to them as well: the model is an explicit store, a
  total map from references to node records. The tree allocates every node with a fresh
  id \<open>node_k\<close>; the reference of that node is \<open>k\<close>. References that were never
  allocated hold \<open>blankNode\<close>. The metadata of a node's data takes part in no operation and
  is left out.
\<close>

type_synonym ref = nat

datatype NodeType =
  RootType | DocumentType | SectionType | ParagraphType | SentenceType
  | ListType | ListItemType | GenericType

record DTreeNodeData =
  nodeType :: NodeType
  content :: "string option"

record DTreeNode =
  nodeId :: nat
  q1 :: int
  q2 :: int
  data :: DTreeNodeData
  parent :: "ref option"
  children :: "ref list"
  prevSibling :: "ref option"
  nextSibling :: "ref option"

definition blankNode :: DTreeNode where
  "blankNode = \<lparr>nodeId = 0, q1 = 0, q2 = 0,
     data = \<lparr>nodeType = GenericType, content = None\<rparr>,
     parent = None, children = [], prevSibling = None, nextSibling = None\<rparr>"

text \<open>
  \<open>TokenXref.index\<close> is a \<open>Map<string, Set<DTreeNode>>\<close>; a set is kept as the list
  of its elements in insertion order.
\<close>

record DTree =
  heap :: "ref \<Rightarrow> DTreeNode"
  root :: ref
  xref :: "string \<rightharpoonup> ref list"
  nodeMap :: "nat \<rightharpoonup> ref"
  nextId :: nat
  q1Counter :: int

definition INITIAL_SPACING :: int where
  "INITIAL_SPACING = 1000"

subsection \<open>DTreeNode\<close>

definition contains :: "(ref \<Rightarrow> DTreeNode) \<Rightarrow> ref \<Rightarrow> ref \<Rightarrow> bool" where
  "contains h this other = (q1 (h this) < q1 (h other) \<and> q2 (h this) > q2 (h other))"

definition equals :: "(ref \<Rightarrow> DTreeNode) \<Rightarrow> ref \<Rightarrow> ref \<Rightarrow> bool" where
  "equals h this other = (nodeId (h this) = nodeId (h other))"

definition isLeaf :: "(ref \<Rightarrow> DTreeNode) \<Rightarrow> ref \<Rightarrow> bool" where
  "isLeaf h this = (length (children (h this)) = 0)"

definition isRoot :: "(ref \<Rightarrow> DTreeNode) \<Rightarrow> ref \<Rightarrow> bool" where
  "isRoot h this = (parent (h this) = None)"

text \<open>The loop \<open>while (current !== null)\<close> of \<open>getAncestryPath\<close>.\<close>
partial_function (option) ancestryLoop ::
  "(ref \<Rightarrow> DTreeNode) \<Rightarrow> ref option \<Rightarrow> ref list \<Rightarrow> ref list option" where
  "ancestryLoop h current path =
     (case current of
        None \<Rightarrow> Some path
      | Some c \<Rightarrow> ancestryLoop h (parent (h c)) (path @ [c]))"

declare ancestryLoop.simps [code]

definition getAncestryPath :: "(ref \<Rightarrow> DTreeNode) \<Rightarrow> ref \<Rightarrow> ref list option" where
  "getAncestryPath h this = ancestryLoop h (parent (h this)) [this]"

text \<open>
  \<open>getSubtree\<close> calls itself inside a \<open>for\<close> loop over the children. \<open>Inl n\<close> is the
  call on node \<open>n\<close>; \<open>Inr cs\<close> is the rest of the loop, over the children \<open>cs\<close> still
  to visit, and yields what those iterations push.
\<close>
partial_function (option) subtreeRec ::
  "(ref \<Rightarrow> DTreeNode) \<Rightarrow> ref + ref list \<Rightarrow> ref list option" where
  "subtreeRec h x =
     (case x of
        Inl n \<Rightarrow> Option.bind (subtreeRec h (Inr (children (h n)))) (\<lambda>r. Some (n # r))
      | Inr [] \<Rightarrow> Some []
      | Inr (child # cs) \<Rightarrow>
          Option.bind (subtreeRec h (Inl child))
            (\<lambda>a. Option.bind (subtreeRec h (Inr cs)) (\<lambda>b. Some (a @ b))))"

declare subtreeRec.simps [code]

definition getSubtree :: "(ref \<Rightarrow> DTreeNode) \<Rightarrow> ref \<Rightarrow> ref list option" where
  "getSubtree h this = subtreeRec h (Inl this)"

subsection \<open>TokenXref\<close>

text \<open>
  A string is a list of characters with code points below 256. On these, \<open>trim\<close>
  removes the white space and line terminators \<open>U+0009\<close> to \<open>U+000D\<close>, \<open>U+0020\<close>
  and \<open>U+00A0\<close>, and \<open>toLowerCase\<close> maps \<open>A\<close> to \<open>Z\<close> and the letters
  \<open>U+00C0\<close> to \<open>U+00DE\<close> (but \<open>U+00D7\<close>) to the character 32 places further.
  Characters from \<open>U+0100\<close> on are outside the model.
\<close>
definition isWhitespace :: "char \<Rightarrow> bool" where
  "isWhitespace c =
     (c \<in> {CHR '' '', CHR 0x09, CHR 0x0A, CHR 0x0B, CHR 0x0C, CHR 0x0D, CHR 0xA0})"

definition isUpperCase :: "nat \<Rightarrow> bool" where
  "isUpperCase n = ((65 \<le> n \<and> n \<le> 90) \<or> (192 \<le> n \<and> n \<le> 222 \<and> n \<noteq> 215))"

definition toLowerCase :: "string \<Rightarrow> string" where
  "toLowerCase s =
     map (\<lambda>c. if isUpperCase (of_char c) then char_of ((of_char c :: nat) + 32) else c) s"

definition trim :: "string \<Rightarrow> string" where
  "trim s = rev (dropWhile isWhitespace (rev (dropWhile isWhitespace s)))"

definition normalizedToken :: "string \<Rightarrow> string" where
  "normalizedToken token = trim (toLowerCase token)"

definition xrefAdd :: "(string \<rightharpoonup> ref list) \<Rightarrow> string \<Rightarrow> ref \<Rightarrow> (string \<rightharpoonup> ref list)" where
  "xrefAdd index token node =
     (let index1 = (if index (normalizedToken token) = None
                    then index(normalizedToken token \<mapsto> []) else index);
          nodes = the (index1 (normalizedToken token))
      in index1(normalizedToken token \<mapsto> (if node \<in> set nodes then nodes else nodes @ [node])))"

definition xrefGet :: "(string \<rightharpoonup> ref list) \<Rightarrow> string \<Rightarrow> ref list" where
  "xrefGet index token =
     (case index (normalizedToken token) of Some nodes \<Rightarrow> nodes | None \<Rightarrow> [])"

definition xrefRemoveNode :: "(string \<rightharpoonup> ref list) \<Rightarrow> ref \<Rightarrow> (string \<rightharpoonup> ref list)" where
  "xrefRemoveNode index node = (\<lambda>token. map_option (removeAll node) (index token))"

subsection \<open>DTree\<close>

definition createDTree :: "DTreeNodeData \<Rightarrow> DTree" where
  "createDTree rootData =
     \<lparr>heap = (\<lambda>_. blankNode)(1 :=
        \<lparr>nodeId = 1, q1 = 0, q2 = MAX_SAFE_INTEGER, data = rootData,
         parent = None, children = [], prevSibling = None, nextSibling = None\<rparr>),
      root = 1, xref = Map.empty, nodeMap = [1 \<mapsto> 1], nextId = 2, q1Counter = 0\<rparr>"

definition generateId :: "DTree \<Rightarrow> DTree \<times> nat" where
  "generateId t = (t\<lparr>nextId := nextId t + 1\<rparr>, nextId t)"

text \<open>
  The provisional \<open>q2\<close> computed here is overwritten by \<open>recalculateQ2\<close>; it starts
  from the \<open>MAX_SAFE_INTEGER\<close> of the root, so the sum is rounded. The counters
  \<open>q1Counter\<close> and \<open>counter\<close> grow by \<open>INITIAL_SPACING\<close> per node from 0; their
  sums are written exactly, which they are up to \<open>2^53\<close>, that is, for the first
  \<open>9 \<cdot> 10^12\<close> nodes.
\<close>
definition calculateChildIndices :: "DTree \<Rightarrow> ref \<Rightarrow> ref option \<Rightarrow> DTree \<times> int \<times> int" where
  "calculateChildIndices t par afterSibling =
     (let t' = t\<lparr>q1Counter := q1Counter t + INITIAL_SPACING\<rparr>;
          siblings = children (heap t' par)
      in (t', q1Counter t',
          (case afterSibling of
             None \<Rightarrow> roundDouble (q2 (heap t' par) + INITIAL_SPACING)
           | Some a \<Rightarrow>
               if length siblings = 0 then roundDouble (q2 (heap t' par) + INITIAL_SPACING)
               else roundDouble (q2 (heap t' a) + INITIAL_SPACING))))"

text \<open>\<open>Array.prototype.indexOf\<close>: the first position of \<open>x\<close>, or \<open>-1\<close>.\<close>
fun indexOf :: "'a list \<Rightarrow> 'a \<Rightarrow> int" where
  "indexOf [] x = - 1"
| "indexOf (y # ys) x =
     (if y = x then 0 else (let i = indexOf ys x in if i < 0 then - 1 else i + 1))"

text \<open>
  \<open>xs.splice(start, deleteCount, ...items)\<close>, for the resulting array: a negative
  \<open>start\<close> counts from the end.
\<close>
definition splice :: "'a list \<Rightarrow> int \<Rightarrow> nat \<Rightarrow> 'a list \<Rightarrow> 'a list" where
  "splice xs start deleteCount items =
     (let len = int (length xs);
          s = nat (if start < 0 then max (len + start) 0 else min start len)
      in take s xs @ items @ drop (s + deleteCount) xs)"

text \<open>Assignments to one field of one node: \<open>n.prevSibling = v\<close> and so on.\<close>
definition setPrevSibling :: "(ref \<Rightarrow> DTreeNode) \<Rightarrow> ref \<Rightarrow> ref option \<Rightarrow> (ref \<Rightarrow> DTreeNode)" where
  "setPrevSibling h n v = h(n := (h n)\<lparr>prevSibling := v\<rparr>)"

definition setNextSibling :: "(ref \<Rightarrow> DTreeNode) \<Rightarrow> ref \<Rightarrow> ref option \<Rightarrow> (ref \<Rightarrow> DTreeNode)" where
  "setNextSibling h n v = h(n := (h n)\<lparr>nextSibling := v\<rparr>)"

definition setChildren :: "(ref \<Rightarrow> DTreeNode) \<Rightarrow> ref \<Rightarrow> ref list \<Rightarrow> (ref \<Rightarrow> DTreeNode)" where
  "setChildren h n v = h(n := (h n)\<lparr>children := v\<rparr>)"

definition addNode :: "DTree \<Rightarrow> ref \<Rightarrow> DTreeNodeData \<Rightarrow> ref option \<Rightarrow> DTree \<times> ref" where
  "addNode t par dat afterSibling =
     (let (t1, q1v, q2v) = calculateChildIndices t par afterSibling;
          (t2, nid) = generateId t1;
          node = nid;
          h0 = (heap t2)(node :=
                 \<lparr>nodeId = nid, q1 = q1v, q2 = q2v, data = dat, parent = Some par,
                  children = [], prevSibling = None, nextSibling = None\<rparr>);
          h1 = (case afterSibling of
                  Some a \<Rightarrow>
                    (let ha = setPrevSibling h0 node (Some a);
                         hb = setNextSibling ha node (nextSibling (ha a));
                         hc = (case nextSibling (hb a) of
                                 Some nx \<Rightarrow> setPrevSibling hb nx (Some node)
                               | None \<Rightarrow> hb);
                         hd = setNextSibling hc a (Some node);
                         index = indexOf (children (hd par)) a
                     in setChildren hd par (splice (children (hd par)) (index + 1) 0 [node]))
                | None \<Rightarrow>
                    (let ha = (case children (h0 par) of
                                 [] \<Rightarrow> h0
                               | firstChild # _ \<Rightarrow>
                                   setPrevSibling (setNextSibling h0 node (Some firstChild))
                                     firstChild (Some node))
                     in setChildren ha par (node # children (ha par))))
      in (t2\<lparr>heap := h1, nodeMap := (nodeMap t2)(nid \<mapsto> node)\<rparr>, node))"

text \<open>\<open>parent.children[parent.children.length - 1]\<close> is \<open>undefined\<close> on an empty array.\<close>
definition appendChild :: "DTree \<Rightarrow> ref \<Rightarrow> DTreeNodeData \<Rightarrow> DTree \<times> ref" where
  "appendChild t par dat =
     (let cs = children (heap t par);
          lastChild = (if cs = [] then None else Some (last cs))
      in addNode t par dat lastChild)"

text \<open>
  \<open>recalculateQ2\<close>: \<open>traverse\<close> calls itself inside a \<open>for\<close> loop over the children.
  The state is the store and the local \<open>counter\<close>; \<open>Inl n\<close> is the call on node \<open>n\<close>,
  \<open>Inr cs\<close> the rest of the loop over the children \<open>cs\<close>.
\<close>
partial_function (option) traverseRec ::
  "ref + ref list \<Rightarrow> (ref \<Rightarrow> DTreeNode) \<times> int \<Rightarrow> ((ref \<Rightarrow> DTreeNode) \<times> int) option" where
  "traverseRec x s =
     (case x of
        Inl n \<Rightarrow>
          Option.bind (traverseRec (Inr (children (fst s n))) s)
            (\<lambda>(h, counter).
               Some (h(n := (h n)\<lparr>q2 := counter + INITIAL_SPACING\<rparr>), counter + INITIAL_SPACING))
      | Inr [] \<Rightarrow> Some s
      | Inr (child # cs) \<Rightarrow>
          Option.bind (traverseRec (Inl child) s) (\<lambda>s'. traverseRec (Inr cs) s'))"

declare traverseRec.simps [code]

definition recalculateQ2 :: "DTree \<Rightarrow> DTree option" where
  "recalculateQ2 t =
     map_option (\<lambda>(h, counter). t\<lparr>heap := h\<rparr>) (traverseRec (Inl (root t)) (heap t, 0))"

text \<open>
  \<open>removeNode\<close> returns nothing; the result here is the outcome of the call (the thrown
  error or the return) together with the tree as the call leaves it.
\<close>
definition removeNode :: "DTree \<Rightarrow> ref \<Rightarrow> ((error + unit) \<times> DTree) option" where
  "removeNode t node =
     (if isRoot (heap t) node then Some (Inl RootRemovalForbidden, t)
      else
        (case getSubtree (heap t) node of
           None \<Rightarrow> None
         | Some subtree \<Rightarrow>
             (let t1 = fold (\<lambda>n t'. t'\<lparr>xref := xrefRemoveNode (xref t') n,
                                       nodeMap := (nodeMap t')(nodeId (heap t' n) := None)\<rparr>)
                         subtree t;
                  h = heap t1;
                  par = the (parent (h node));
                  index = indexOf (children (h par)) node;
                  h1 = setChildren h par (splice (children (h par)) index 1 []);
                  h2 = (case prevSibling (h1 node) of
                          Some pv \<Rightarrow> setNextSibling h1 pv (nextSibling (h1 node))
                        | None \<Rightarrow> h1);
                  h3 = (case nextSibling (h2 node) of
                          Some nx \<Rightarrow> setPrevSibling h2 nx (prevSibling (h2 node))
                        | None \<Rightarrow> h2)
              in Some (Inr (), t1\<lparr>heap := h3\<rparr>))))"

definition findNCD :: "DTree \<Rightarrow> ref \<Rightarrow> ref \<Rightarrow> ref option" where
  "findNCD t nodeA nodeB =
     (let h = heap t in
      if equals h nodeA nodeB then Some nodeA
      else if contains h nodeA nodeB then Some nodeA
      else if contains h nodeB nodeA then Some nodeB
      else
        (case getAncestryPath h nodeA of
           None \<Rightarrow> None
         | Some ancestryA \<Rightarrow>
             (case getAncestryPath h nodeB of
                None \<Rightarrow> None
              | Some pathB \<Rightarrow>
                  (let ancestryB = map (\<lambda>n. nodeId (h n)) pathB in
                   case find (\<lambda>ancestor. nodeId (h ancestor) \<in> set ancestryB) ancestryA of
                     Some ancestor \<Rightarrow> Some ancestor
                   | None \<Rightarrow> Some (root t)))))"

text \<open>The loop \<open>for (let i = 1; i < nodes.length; i++)\<close> of \<open>findNCDMultiple\<close>.\<close>
fun ncdLoop :: "DTree \<Rightarrow> ref \<Rightarrow> ref list \<Rightarrow> ref option" where
  "ncdLoop t ncd [] = Some ncd"
| "ncdLoop t ncd (n # ns) =
     (case findNCD t ncd n of None \<Rightarrow> None | Some ncd' \<Rightarrow> ncdLoop t ncd' ns)"

definition findNCDMultiple :: "DTree \<Rightarrow> ref list \<Rightarrow> ref option" where
  "findNCDMultiple t nodes =
     (if length nodes = 0 then Some (root t)
      else if length nodes = 1 then Some (nodes ! 0)
      else ncdLoop t (nodes ! 0) (tl nodes))"

record ANDResult =
  contextNode :: ref
  occurrences :: "string \<rightharpoonup> ref list"

record ORResult =
  contexts :: "ref list"
  orOccurrences :: "string \<rightharpoonup> ref list"

text \<open>
  The \<open>for\<close> loop of \<open>searchAND\<close>; \<open>None\<close> is its early \<open>return null\<close>, otherwise
  it yields \<open>occurrences\<close> and \<open>allNodes\<close>.
\<close>
fun searchANDLoop ::
  "DTree \<Rightarrow> string list \<Rightarrow> (string \<rightharpoonup> ref list) \<Rightarrow> ref list \<Rightarrow>
   ((string \<rightharpoonup> ref list) \<times> ref list) option" where
  "searchANDLoop t [] occ allNodes = Some (occ, allNodes)"
| "searchANDLoop t (token # tokens) occ allNodes =
     (let nodes = xrefGet (xref t) token in
      if length nodes = 0 then None
      else searchANDLoop t tokens (occ(token \<mapsto> nodes)) (allNodes @ nodes))"

text \<open>
  \<open>searchAND\<close> returns \<open>{context, occurrences} | null\<close>: the inner option is the
  \<open>null\<close>, the outer one tells whether the call returns.
\<close>
definition searchAND :: "DTree \<Rightarrow> string list \<Rightarrow> ANDResult option option" where
  "searchAND t tokens =
     (case searchANDLoop t tokens Map.empty [] of
        None \<Rightarrow> Some None
      | Some (occ, allNodes) \<Rightarrow>
          (case findNCDMultiple t allNodes of
             None \<Rightarrow> None
           | Some ctx \<Rightarrow> Some (Some \<lparr>contextNode = ctx, occurrences = occ\<rparr>)))"

fun searchORLoop ::
  "DTree \<Rightarrow> string list \<Rightarrow> (string \<rightharpoonup> ref list) \<Rightarrow> ref list \<Rightarrow>
   (string \<rightharpoonup> ref list) \<times> ref list" where
  "searchORLoop t [] occ allNodes = (occ, allNodes)"
| "searchORLoop t (token # tokens) occ allNodes =
     (let nodes = xrefGet (xref t) token in
      searchORLoop t tokens (occ(token \<mapsto> nodes)) (allNodes @ nodes))"

text \<open>\<open>[...new Set(xs)]\<close>: the first occurrence of every element, in order.\<close>
fun dedup :: "'a list \<Rightarrow> 'a list \<Rightarrow> 'a list" where
  "dedup seen [] = seen"
| "dedup seen (x # xs) = dedup (if x \<in> set seen then seen else seen @ [x]) xs"

text \<open>\<open>n.isLeaf() ? n.parent || n : n\<close>\<close>
definition liftLeaf :: "(ref \<Rightarrow> DTreeNode) \<Rightarrow> ref \<Rightarrow> ref" where
  "liftLeaf h n =
     (if isLeaf h n then (case parent (h n) of Some p \<Rightarrow> p | None \<Rightarrow> n) else n)"

definition searchOR :: "DTree \<Rightarrow> string list \<Rightarrow> ORResult" where
  "searchOR t tokens =
     (let (occ, allNodes) = searchORLoop t tokens Map.empty []
      in \<lparr>contexts = dedup [] (map (liftLeaf (heap t)) allNodes), orOccurrences = occ\<rparr>)"

subsection \<open>Nodes of the tree, ancestors and descendants\<close>

text \<open>
  The nodes of the tree are what \<open>getSubtree\<close> collects from the root. A node \<open>a\<close> is an
  ancestor of \<open>b\<close> when it occurs after \<open>b\<close> on \<open>b.getAncestryPath()\<close>; \<open>d\<close> is a
  descendant of \<open>n\<close> when it occurs after \<open>n\<close> in \<open>n.getSubtree()\<close>.
\<close>

definition treeNodes :: "DTree \<Rightarrow> ref set" where
  "treeNodes t = (case getSubtree (heap t) (root t) of Some ns \<Rightarrow> set ns | None \<Rightarrow> {})"

definition isAncestor :: "(ref \<Rightarrow> DTreeNode) \<Rightarrow> ref \<Rightarrow> ref \<Rightarrow> bool" where
  "isAncestor h a b =
     (case getAncestryPath h b of Some path \<Rightarrow> a \<in> set (tl path) | None \<Rightarrow> False)"

definition isDescendant :: "(ref \<Rightarrow> DTreeNode) \<Rightarrow> ref \<Rightarrow> ref \<Rightarrow> bool" where
  "isDescendant h d n =
     (case getSubtree h n of Some ns \<Rightarrow> d \<in> set (tl ns) | None \<Rightarrow> False)"

text \<open>
  The sibling references of the children \<open>cs\<close> of one node form a doubly linked list:
  \<open>linked h pv cs nx\<close> for a segment \<open>cs\<close> with predecessor \<open>pv\<close> and successor \<open>nx\<close>.
\<close>
fun linked :: "(ref \<Rightarrow> DTreeNode) \<Rightarrow> ref option \<Rightarrow> ref list \<Rightarrow> ref option \<Rightarrow> bool" where
  "linked h pv [] nx = True"
| "linked h pv (c # cs) nx =
     (prevSibling (h c) = pv \<and>
      nextSibling (h c) = (case cs of [] \<Rightarrow> nx | n # _ \<Rightarrow> Some n) \<and>
      linked h (Some c) cs nx)"

definition siblingsLinked :: "(ref \<Rightarrow> DTreeNode) \<Rightarrow> ref list \<Rightarrow> bool" where
  "siblingsLinked h cs = linked h None cs None"

subsection \<open>Trees built through the interface\<close>

text \<open>
  \<open>constructed\<close>: the trees obtained from \<open>createDTree\<close> by any sequence of the
  operations of the interface: \<open>addNode\<close> (hence \<open>appendChild\<close>) under a node of the
  tree, in any order, after one of its children or at the front; registering a token for a
  node of the tree (\<open>xref.add\<close>, as \<open>indexContent\<close> does); \<open>recalculateQ2\<close>; and
  \<open>removeNode\<close> of a node of the tree.
\<close>
inductive constructed :: "DTree \<Rightarrow> bool" where
  constructed_create: "constructed (createDTree rootData)"
| constructed_add:
    "constructed t \<Longrightarrow> par \<in> treeNodes t \<Longrightarrow>
     afterSibling = None \<or> (\<exists>a. afterSibling = Some a \<and> a \<in> set (children (heap t par))) \<Longrightarrow>
     constructed (fst (addNode t par dat afterSibling))"
| constructed_index:
    "constructed t \<Longrightarrow> node \<in> treeNodes t \<Longrightarrow>
     constructed (t\<lparr>xref := xrefAdd (xref t) token node\<rparr>)"
| constructed_recalculate:
    "constructed t \<Longrightarrow> recalculateQ2 t = Some t' \<Longrightarrow> constructed t'"
| constructed_remove:
    "constructed t \<Longrightarrow> node \<in> treeNodes t \<Longrightarrow> removeNode t node = Some (Inr (), t') \<Longrightarrow>
     constructed t'"

text \<open>
  \<open>rightSpine h r p\<close>: \<open>p\<close> is \<open>r\<close> or the last child of a node on the right spine, that
  is, neither \<open>p\<close> nor any of its ancestors below \<open>r\<close> has a later sibling.
\<close>
inductive rightSpine :: "(ref \<Rightarrow> DTreeNode) \<Rightarrow> ref \<Rightarrow> ref \<Rightarrow> bool" where
  rightSpine_root: "rightSpine h r r"
| rightSpine_last:
    "rightSpine h r q \<Longrightarrow> children (h q) \<noteq> [] \<Longrightarrow> rightSpine h r (last (children (h q)))"

text \<open>
  \<open>dfsBuilt\<close>: the trees built by \<open>appendChild\<close> in complete-subtree order. A node
  receives children only while it and all its ancestors are last children: once a later
  sibling exists at any ancestor level, the subtree is complete. Between the appends,
  tokens may be registered, \<open>recalculateQ2\<close> may run and subtrees may be removed.
\<close>
inductive dfsBuilt :: "DTree \<Rightarrow> bool" where
  dfsBuilt_create: "dfsBuilt (createDTree rootData)"
| dfsBuilt_append:
    "dfsBuilt t \<Longrightarrow> rightSpine (heap t) (root t) par \<Longrightarrow>
     dfsBuilt (fst (appendChild t par dat))"
| dfsBuilt_index:
    "dfsBuilt t \<Longrightarrow> node \<in> treeNodes t \<Longrightarrow>
     dfsBuilt (t\<lparr>xref := xrefAdd (xref t) token node\<rparr>)"
| dfsBuilt_recalculate:
    "dfsBuilt t \<Longrightarrow> recalculateQ2 t = Some t' \<Longrightarrow> dfsBuilt t'"
| dfsBuilt_remove:
    "dfsBuilt t \<Longrightarrow> node \<in> treeNodes t \<Longrightarrow> removeNode t node = Some (Inr (), t') \<Longrightarrow>
     dfsBuilt t'"

text \<open>
  \<open>freshCoords\<close>: the trees built in complete-subtree order on which \<open>recalculateQ2\<close>
  has run after the last insertion; afterwards tokens may be registered and subtrees
  removed.
\<close>
inductive freshCoords :: "DTree \<Rightarrow> bool" where
  freshCoords_recalculate:
    "dfsBuilt t \<Longrightarrow> recalculateQ2 t = Some t' \<Longrightarrow> freshCoords t'"
| freshCoords_index:
    "freshCoords t \<Longrightarrow> node \<in> treeNodes t \<Longrightarrow>
     freshCoords (t\<lparr>xref := xrefAdd (xref t) token node\<rparr>)"
| freshCoords_remove:
    "freshCoords t \<Longrightarrow> node \<in> treeNodes t \<Longrightarrow> removeNode t node = Some (Inr (), t') \<Longrightarrow>
     freshCoords t'"

text \<open>
  A node dominates itself and its descendants. The nearest common dominator of a set \<open>S\<close>
  of nodes is the node of the tree that dominates every node of \<open>S\<close> and is dominated by
  every node of the tree that does so: the deepest common ancestor-or-self.
\<close>
definition dominates :: "(ref \<Rightarrow> DTreeNode) \<Rightarrow> ref \<Rightarrow> ref \<Rightarrow> bool" where
  "dominates h a b = (a = b \<or> isAncestor h a b)"

definition nearestCommonDominator :: "DTree \<Rightarrow> ref set \<Rightarrow> ref \<Rightarrow> bool" where
  "nearestCommonDominator t S c =
     (c \<in> treeNodes t \<and> (\<forall>n \<in> S. dominates (heap t) c n) \<and>
      (\<forall>d \<in> treeNodes t. (\<forall>n \<in> S. dominates (heap t) d n) \<longrightarrow> dominates (heap t) d c))"

subsection \<open>The tree that a store represents\<close>

text \<open>
  For the proofs, the shape of the store is described by a tree of references:
  \<open>repr h T\<close> holds when the \<open>children\<close> and \<open>parent\<close> fields of the nodes of \<open>T\<close> are
  those of \<open>T\<close>.
\<close>

datatype rtree = RNode ref "rtree list"

fun rroot :: "rtree \<Rightarrow> ref" where
  "rroot (RNode r ts) = r"

fun pre :: "rtree \<Rightarrow> ref list" where
  "pre (RNode r ts) = r # concat (map pre ts)"

fun post :: "rtree \<Rightarrow> ref list" where
  "post (RNode r ts) = concat (map post ts) @ [r]"

fun repr :: "(ref \<Rightarrow> DTreeNode) \<Rightarrow> rtree \<Rightarrow> bool" where
  "repr h (RNode r ts) =
     (children (h r) = map rroot ts \<and>
      (\<forall>t \<in> set ts. parent (h (rroot t)) = Some r \<and> repr h t))"

fun isAnc :: "rtree \<Rightarrow> ref \<Rightarrow> ref \<Rightarrow> bool" where
  "isAnc (RNode r ts) a b =
     ((a = r \<and> b \<in> set (concat (map pre ts))) \<or> (\<exists>t \<in> set ts. isAnc t a b))"

text \<open>
  \<open>rncd T S c\<close>: in \<open>T\<close>, the node \<open>c\<close> is an ancestor-or-self of every node of \<open>S\<close>,
  and every node of \<open>T\<close> that is so is an ancestor-or-self of \<open>c\<close>.
\<close>
definition rncd :: "rtree \<Rightarrow> ref set \<Rightarrow> ref \<Rightarrow> bool" where
  "rncd T S c =
     (c \<in> set (pre T) \<and> (\<forall>n \<in> S. c = n \<or> isAnc T c n) \<and>
      (\<forall>d \<in> set (pre T). (\<forall>n \<in> S. d = n \<or> isAnc T d n) \<longrightarrow> d = c \<or> isAnc T d c))"

text \<open>The tree without the subtrees rooted at \<open>n\<close>.\<close>
fun rremove :: "ref \<Rightarrow> rtree \<Rightarrow> rtree" where
  "rremove n (RNode r ts) = RNode r (map (rremove n) (filter (\<lambda>t. rroot t \<noteq> n) ts))"

fun rinsert :: "ref \<Rightarrow> nat \<Rightarrow> ref \<Rightarrow> rtree \<Rightarrow> rtree" where
  "rinsert p i k (RNode r ts) =
     (if r = p then RNode r (take i ts @ [RNode k []] @ drop i ts)
      else RNode r (map (rinsert p i k) ts))"

fun spine :: "rtree \<Rightarrow> ref list" and lastSpine :: "rtree list \<Rightarrow> ref list" where
  "spine (RNode r ts) = r # lastSpine ts"
| "lastSpine [] = []"
| "lastSpine [t] = spine t"
| "lastSpine (t # t' # ts) = lastSpine (t' # ts)"

fun assignQ2 :: "rtree \<Rightarrow> (ref \<Rightarrow> DTreeNode) \<times> int \<Rightarrow> (ref \<Rightarrow> DTreeNode) \<times> int" where
  "assignQ2 (RNode r ts) s =
     (let (h, c) = fold assignQ2 ts s
      in (h(r := (h r)\<lparr>q2 := c + INITIAL_SPACING\<rparr>), c + INITIAL_SPACING))"

text \<open>
  A shaped tree: the store represents \<open>T\<close> from the root, no node occurs twice, the root
  has no parent, and every node was allocated by the tree and carries its own id.
\<close>
definition shaped :: "DTree \<Rightarrow> rtree \<Rightarrow> bool" where
  "shaped t T =
     (rroot T = root t \<and> repr (heap t) T \<and> distinct (pre T) \<and>
      parent (heap t (root t)) = None \<and>
      (\<forall>r \<in> set (pre T). r < nextId t \<and> nodeId (heap t r) = r))"

text \<open>
  The nodes of a tree built in complete-subtree order carry increasing \<open>q1\<close> in
  pre-order, none above the counter.
\<close>
definition preOrdered :: "DTree \<Rightarrow> rtree \<Rightarrow> bool" where
  "preOrdered t T =
     (shaped t T \<and> sorted_wrt (\<lambda>x y. q1 (heap t x) < q1 (heap t y)) (pre T) \<and>
      (\<forall>x \<in> set (pre T). q1 (heap t x) \<le> q1Counter t))"

text \<open>
  With fresh coordinates, \<open>q1\<close> increases along the pre-order and \<open>q2\<close> along the
  post-order of the tree.
\<close>
definition coordinated :: "DTree \<Rightarrow> rtree \<Rightarrow> bool" where
  "coordinated t T =
     (shaped t T \<and> sorted_wrt (\<lambda>x y. q1 (heap t x) < q1 (heap t y)) (pre T) \<and>
      sorted_wrt (\<lambda>x y. q2 (heap t x) < q2 (heap t y)) (post T))"

text \<open>In a well-linked tree the children of every node form a doubly linked list.\<close>
definition wellLinked :: "DTree \<Rightarrow> rtree \<Rightarrow> bool" where
  "wellLinked t T = (\<forall>r \<in> set (pre T). siblingsLinked (heap t) (children (heap t r)))"

text \<open>
  The first loop of \<open>removeNode\<close>, which removes every node of the subtree from the
  cross-reference index and from \<open>nodeMap\<close>.
\<close>
definition purge :: "ref list \<Rightarrow> DTree \<Rightarrow> DTree" where
  "purge subtree t =
     fold (\<lambda>n t'. t'\<lparr>xref := xrefRemoveNode (xref t') n,
                     nodeMap := (nodeMap t')(nodeId (heap t' n) := None)\<rparr>) subtree t"

subsection \<open>Example trees\<close>

text \<open>
  \<open>dfsTree\<close> is built in complete-subtree order: node 2 under the root, nodes 3 and 4
  under node 2, then node 5 under the root. \<open>interleavedTree\<close> is not: nodes 2 and 3
  under the root, then node 4 under node 2 and node 5 under node 3.
\<close>
definition exampleData :: DTreeNodeData where
  "exampleData = \<lparr>nodeType = GenericType, content = None\<rparr>"

definition appendAll :: "DTree \<Rightarrow> ref list \<Rightarrow> DTree" where
  "appendAll t ps = fold (\<lambda>p t'. fst (appendChild t' p exampleData)) ps t"

definition dfsTree :: DTree where
  "dfsTree = appendAll (createDTree exampleData) [1, 2, 2, 1]"

definition interleavedTree :: DTree where
  "interleavedTree = appendAll (createDTree exampleData) [1, 1, 2, 3]"

text \<open>
  \<open>indexedTree\<close> is \<open>dfsTree\<close> with the token \<open>alpha\<close> registered for the leaf 3 and
  \<open>Beta\<close> for its parent 2; \<open>rootIndexedTree\<close> is a tree of the root alone, with a
  token registered for the root. \<open>recomputed t\<close> is \<open>t\<close> after \<open>recalculateQ2\<close>.
  \<open>staleTree\<close> is \<open>dfsTree\<close>, never recomputed, with tokens registered for nodes 4 and
  5; \<open>crossedTree\<close> is \<open>interleavedTree\<close>, recomputed, with tokens registered for nodes
  3 and 4.
\<close>
definition indexedTree :: DTree where
  "indexedTree =
     (let t = dfsTree;
          t = t\<lparr>xref := xrefAdd (xref t) ''alpha'' 3\<rparr>;
          t = t\<lparr>xref := xrefAdd (xref t) ''Beta'' 2\<rparr>
      in t)"

definition rootIndexedTree :: DTree where
  "rootIndexedTree =
     (let t = createDTree exampleData in t\<lparr>xref := xrefAdd (xref t) ''hello'' (root t)\<rparr>)"

definition recomputed :: "DTree \<Rightarrow> DTree" where
  "recomputed t = (case recalculateQ2 t of Some t' \<Rightarrow> t' | None \<Rightarrow> t)"

text \<open>
  \<open>rebuiltTree\<close> alternates \<open>appendChild\<close> and \<open>recalculateQ2\<close>: node 2 under the
  root, recompute, node 3 under node 2, recompute, node 4 under the root.
\<close>
definition rebuiltTree :: DTree where
  "rebuiltTree =
     (let t = createDTree exampleData;
          t = recomputed (fst (appendChild t 1 exampleData));
          t = recomputed (fst (appendChild t 2 exampleData));
          t = fst (appendChild t 1 exampleData)
      in t)"

definition freshTree :: DTree where
  "freshTree = recomputed indexedTree"

definition staleTree :: DTree where
  "staleTree =
     (let t = dfsTree;
          t = t\<lparr>xref := xrefAdd (xref t) ''alpha'' 4\<rparr>;
          t = t\<lparr>xref := xrefAdd (xref t) ''beta'' 5\<rparr>
      in t)"

definition crossedTree :: DTree where
  "crossedTree =
     (let t = recomputed interleavedTree;
          t = t\<lparr>xref := xrefAdd (xref t) ''alpha'' 3\<rparr>;
          t = t\<lparr>xref := xrefAdd (xref t) ''beta'' 4\<rparr>
      in t)"

section \<open>Properties of the addressing engine\<close>

subsection \<open>Rounding\<close>

lemma roundDouble_small [simp]: "\<bar>x\<bar> < 2 ^ 53 \<Longrightarrow> roundDouble x = x"
  by (simp add: roundDouble_def)

lemma bitLength_bounds: "2 ^ k \<le> n \<Longrightarrow> n < 2 ^ Suc k \<Longrightarrow> bitLength n = Suc k"
proof (induction k arbitrary: n)
  case 0
  then have "n = 1" by simp
  then show ?case by (simp add: bitLength.simps)
next
  case (Suc k)
  then have "2 ^ k \<le> n div 2" "n div 2 < 2 ^ Suc k" by simp_all
  then have "bitLength (n div 2) = Suc k" by (rule Suc.IH)
  moreover have "0 < n" using Suc.prems(1) by (smt (verit) zero_less_power)
  ultimately show ?case by (subst bitLength.simps) simp
qed

lemma bitLength_lower: "0 < n \<Longrightarrow> 2 ^ (bitLength n - 1) \<le> n"
proof (induction n rule: bitLength.induct)
  case (1 n)
  show ?case
  proof (cases "n div 2 \<le> 0")
    case True
    with 1(2) have "n = 1" by simp
    then show ?thesis by (simp add: bitLength.simps)
  next
    case False
    then have pos: "0 < n div 2" by simp
    with 1 have IH: "2 ^ (bitLength (n div 2) - 1) \<le> n div 2" by simp
    from pos have "bitLength (n div 2) \<noteq> 0"
      by (subst bitLength.simps) simp
    then have "bitLength (n div 2) = Suc (bitLength (n div 2) - 1)"
      by simp
    moreover have "bitLength n = Suc (bitLength (n div 2))"
      using 1(2) by (subst bitLength.simps) simp
    ultimately have "(2::int) ^ (bitLength n - 1) = 2 * 2 ^ (bitLength (n div 2) - 1)"
      by (metis diff_Suc_1 power_Suc)
    also have "\<dots> \<le> 2 * (n div 2)" using IH by simp
    also have "\<dots> \<le> n" by simp
    finally show ?thesis .
  qed
qed

lemma roundDouble_pos: "0 < x \<Longrightarrow> 0 < roundDouble x"
proof (cases "x < 2 ^ 53")
  case True
  assume "0 < x"
  with True show ?thesis by simp
next
  case False
  assume x: "0 < x"
  define e where "e = bitLength x - 53"
  have "(2::int) ^ e \<le> 2 ^ (bitLength x - 1)"
    unfolding e_def by (rule power_increasing) simp_all
  also have "\<dots> \<le> x" using x by (rule bitLength_lower)
  finally have q: "0 < x div 2 ^ e"
    by (simp add: pos_imp_zdiv_pos_iff)
  have "roundDouble x = x div 2 ^ e * 2 ^ e \<or> roundDouble x = (x div 2 ^ e + 1) * 2 ^ e"
    using False x by (simp add: roundDouble_def Let_def e_def)
  with q show ?thesis by auto
qed

subsection \<open>The 32-bit operators\<close>

lemma toInt32_mod2: "toInt32 n mod 2 = n mod 2"
proof -
  have "(n mod 2 ^ 32) mod 2 = n mod 2"
    by (rule mod_mod_cancel) simp
  moreover have "(x - 4294967296) mod 2 = x mod 2" for x :: int
    by presburger
  ultimately show ?thesis
    by (simp add: toInt32_def Let_def)
qed

lemma bitAnd1_mod2: "bitAnd1 n = n mod 2"
  by (simp add: bitAnd1_def and_one_eq toInt32_mod2)

lemma toInt32_small: "0 \<le> n \<Longrightarrow> n < 2 ^ 31 \<Longrightarrow> toInt32 n = n"
  by (simp add: toInt32_def Let_def)

lemma shr1_small: "0 \<le> n \<Longrightarrow> n < 2 ^ 31 \<Longrightarrow> shr1 n = n div 2"
  by (simp add: shr1_def toInt32_small drop_bit_eq_div)

lemma oddPartLoop_even: "bitAnd1 n = 0 \<Longrightarrow> oddPartLoop n = oddPartLoop (shr1 n)"
  by (subst oddPartLoop.simps) simp

lemma oddPartLoop_odd: "bitAnd1 n \<noteq> 0 \<Longrightarrow> oddPartLoop n = Some n"
  by (subst oddPartLoop.simps) simp

lemma oddPartLoop_Some_nonzero:
  assumes r: "oddPartLoop n = Some y"
  shows "toInt32 n \<noteq> 0"
proof (rule oddPartLoop.raw_induct [where P = "\<lambda>x y. toInt32 x \<noteq> 0", OF _ r])
  fix f :: "int \<Rightarrow> int option" and n y
  assume 1: "\<And>x y. f x = Some y \<Longrightarrow> toInt32 x \<noteq> 0"
    "(if bitAnd1 n = 0 then f (shr1 n) else Some n) = Some y"
  show "toInt32 n \<noteq> 0"
  proof
    assume z: "toInt32 n = 0"
    then have "bitAnd1 n = 0" and "shr1 n = 0"
      by (simp_all add: bitAnd1_def shr1_def)
    with 1 have "toInt32 0 \<noteq> 0" by (auto split: if_splits)
    then show False by (simp add: toInt32_def)
  qed
qed

lemma oddPartLoop_diverges: "toInt32 n = 0 \<Longrightarrow> oddPartLoop n = None"
  using oddPartLoop_Some_nonzero [of n] by (cases "oddPartLoop n") auto

lemma oddPartLoop_pow2_mult:
  "odd m \<Longrightarrow> 0 < m \<Longrightarrow> 2 ^ k * m < 2 ^ 31 \<Longrightarrow> oddPartLoop (2 ^ k * m) = Some m"
proof (induction k)
  case 0
  then show ?case by (simp add: oddPartLoop_odd bitAnd1_mod2 odd_iff_mod_2_eq_one)
next
  case (Suc k)
  have "2 ^ k * m \<le> 2 ^ Suc k * m" using \<open>0 < m\<close> by simp
  then have lt: "2 ^ k * m < 2 ^ 31" using Suc.prems(3) by linarith
  have "oddPartLoop (2 ^ Suc k * m) = oddPartLoop (shr1 (2 ^ Suc k * m))"
    by (rule oddPartLoop_even) (simp add: bitAnd1_mod2)
  also have "shr1 (2 ^ Suc k * m) = 2 ^ k * m"
    using Suc.prems by (subst shr1_small) simp_all
  finally show ?case using Suc.IH Suc.prems lt by simp
qed

lemma getParent_one: "getParent 1 = Some (Inr None)"
  by (simp add: getParent_def validatePositiveInteger_def)

lemma getParent_even_small:
  "1 \<le> n \<Longrightarrow> n < 2 ^ 31 \<Longrightarrow> even n \<Longrightarrow> getParent n = Some (Inr (Some (n div 2)))"
  by (auto simp add: getParent_def validatePositiveInteger_def bitAnd1_mod2 shr1_small)

lemma getParent_odd:
  "1 < n \<Longrightarrow> odd n \<Longrightarrow>
   getParent n =
     map_option (map_sum id Some) (getOddPart (roundDouble (roundDouble (3 * n) + 1)))"
  by (auto simp add: getParent_def validatePositiveInteger_def bitAnd1_mod2 odd_iff_mod_2_eq_one
      split: option.splits sum.splits)

lemma getParent_odd_small:
  assumes "1 < n" "odd n" "3 * n + 1 = 2 ^ k * m" "odd m" "3 * n + 1 < 2 ^ 31"
  shows "getParent n = Some (Inr (Some m))"
proof -
  have m: "0 < m"
  proof (rule ccontr)
    assume "\<not> 0 < m"
    then have "2 ^ k * m \<le> 0" by (simp add: mult_le_0_iff)
    with assms(1,3) show False by simp
  qed
  have "roundDouble (roundDouble (3 * n) + 1) = 2 ^ k * m"
    using assms by simp
  moreover have "oddPartLoop (2 ^ k * m) = Some m"
    using assms m by (intro oddPartLoop_pow2_mult) simp_all
  moreover have "1 \<le> 2 ^ k * m" using assms by simp
  ultimately show ?thesis
    using assms(1,2)
    by (simp add: getParent_odd getOddPart_def validatePositiveInteger_def)
qed

lemma getOddPart_invalid: "(getOddPart n = Some (Inl InvalidId)) = (n < 1)"
  by (auto simp add: getOddPart_def validatePositiveInteger_def)

lemma getOddPart_2_32: "getOddPart (2 ^ 32 * 1) = None"
  by (simp add: getOddPart_def validatePositiveInteger_def oddPartLoop_diverges toInt32_def)

subsection \<open>The ancestry walk and the child search\<close>

lemma getParent_null: "getParent n = Some (Inr None) \<Longrightarrow> n = 1"
  by (auto simp add: getParent_def Let_def split: sum.splits if_splits option.splits)

lemma chainLoop_walk:
  "parentWalk (x # c) \<Longrightarrow> chainLoop x acc = Some (Inr (acc @ c))"
proof (induction c arbitrary: x acc)
  case Nil
  then show ?case by (subst chainLoop.simps) simp
next
  case (Cons y zs)
  then have "chainLoop y (acc @ [y]) = Some (Inr ((acc @ [y]) @ zs))" by simp
  with Cons.prems show ?case by (subst chainLoop.simps) simp
qed

lemma chainLoop_returns:
  assumes r: "chainLoop x acc = Some (Inr res)"
  shows "\<exists>c. res = acc @ c \<and> parentWalk (x # c)"
proof -
  define P where "P = (\<lambda>(x::int) (acc::int list) (r::error + int list).
    \<forall>res. r = Inr res \<longrightarrow> (\<exists>c. res = acc @ c \<and> parentWalk (x # c)))"
  have "P x acc (Inr res)"
  proof (rule chainLoop.raw_induct [where P = P, OF _ r])
    fix f :: "int \<Rightarrow> int list \<Rightarrow> (error + int list) option" and current chain r
    assume IH: "\<And>x acc r. f x acc = Some r \<Longrightarrow> P x acc r"
      and step: "(if current \<noteq> 1 then
          (case getParent current of
             None \<Rightarrow> None
           | Some (Inl e) \<Rightarrow> Some (Inl e)
           | Some (Inr None) \<Rightarrow> Some (Inr chain)
           | Some (Inr (Some p)) \<Rightarrow> f p (chain @ [p]))
        else Some (Inr chain)) = Some r"
    show "P current chain r"
      unfolding P_def
    proof (intro allI impI)
      fix res assume res: "r = Inr res"
      show "\<exists>c. res = chain @ c \<and> parentWalk (current # c)"
      proof (cases "current = 1")
        case True
        with step res show ?thesis by auto
      next
        case False
        with step res obtain p where p: "getParent current = Some (Inr (Some p))"
          and call: "f p (chain @ [p]) = Some (Inr res)"
          by (auto split: option.splits sum.splits dest: getParent_null)
        from IH [OF call] obtain c where "res = (chain @ [p]) @ c" "parentWalk (p # c)"
          unfolding P_def by blast
        with False p show ?thesis by (intro exI [of _ "p # c"]) simp
      qed
    qed
  qed
  then show ?thesis by (simp add: P_def)
qed

lemma getParent_3: "getParent 3 = Some (Inr (Some 5))"
  by (simp add: getParent_def validatePositiveInteger_def getOddPart_def bitAnd1_mod2
      oddPartLoop_even oddPartLoop_odd shr1_def toInt32_def drop_bit_eq_div)

lemma getParent_5: "getParent 5 = Some (Inr (Some 1))"
  by (simp add: getParent_def validatePositiveInteger_def getOddPart_def bitAnd1_mod2
      oddPartLoop_even oddPartLoop_odd shr1_def toInt32_def drop_bit_eq_div)

lemma getParent_no_throw: "0 < c \<Longrightarrow> getParent c \<noteq> Some (Inl e)"
proof -
  assume c: "0 < c"
  then have "0 < roundDouble (3 * c)" by (intro roundDouble_pos) simp
  then have "0 < roundDouble (roundDouble (3 * c) + 1)" by (intro roundDouble_pos) simp
  with c show ?thesis
    by (auto simp add: getParent_def getOddPart_def Let_def validatePositiveInteger_def
        split: option.splits sum.splits if_splits)
qed

lemma associateStep_no_throw: "associateStep parentID k acc \<noteq> Some (Inl e)"
  using getParent_no_throw [of "roundDouble (roundDouble (2 ^ k * parentID) - 1) div 3" e]
  by (auto simp add: associateStep_def Let_def split: option.splits sum.splits if_splits)

lemma associatesLoop_diverges:
  "k \<in> set ks \<Longrightarrow> (\<And>c. associateStep p k c = None) \<Longrightarrow>
   associatesLoop p ks acc = None"
proof (induction ks arbitrary: acc)
  case Nil
  then show ?case by simp
next
  case (Cons a ks)
  show ?case
  proof (cases "associateStep p a acc")
    case None
    then show ?thesis by simp
  next
    case (Some r)
    then obtain c where r: "r = Inr c"
      using associateStep_no_throw [of p a acc] by (cases r) auto
    from Some Cons.prems(2) have "a \<noteq> k" by auto
    with Cons.prems have "k \<in> set ks" by simp
    with Cons.IH [OF this Cons.prems(2)] Some r show ?thesis by simp
  qed
qed

subsection \<open>Claims on the addressing engine\<close>

text \<open>
  C4. The spec states that \<open>parent(n) = n / 2\<close> for every even positive integer
  \<open>n\<close>, and the comment in \<open>getParent\<close> says the same. The code computes
  \<open>n >> 1\<close>, which first truncates \<open>n\<close> to 32 signed bits: at
  \<open>n = 2^31 = 2147483648\<close> the result is \<open>-1073741824\<close> and not
  \<open>1073741824\<close>. (The claim holds at 1, at the even \<open>n\<close> below \<open>2^31\<close> and at
  the odd \<open>n\<close> with \<open>3n + 1\<close> below \<open>2^31\<close>: \<open>getParent_one\<close>,
  \<open>getParent_even_small\<close>, \<open>getParent_odd_small\<close>.)
\<close>
theorem getParent_even_2_31:
  "getParent 2147483648 = Some (Inr (Some (- 1073741824)))"
  by (simp add: getParent_def validatePositiveInteger_def bitAnd1_mod2 shr1_def toInt32_def drop_bit_eq_div)

text \<open>
  When \<open>getAncestryChain\<close> returns, it returns the walk \<open>[n, \<dots>, 1]\<close> of the
  repeated \<open>getParent\<close>, and it returns whenever that walk exists.
\<close>
lemma getAncestryChain_returns_walk:
  assumes "1 \<le> n"
  shows "(getAncestryChain n = Some (Inr c)) = (\<exists>c'. c = n # c' \<and> parentWalk c)"
proof
  assume "getAncestryChain n = Some (Inr c)"
  with assms have "chainLoop n [n] = Some (Inr c)"
    by (simp add: getAncestryChain_def validatePositiveInteger_def)
  from chainLoop_returns [OF this] show "\<exists>c'. c = n # c' \<and> parentWalk c" by auto
next
  assume "\<exists>c'. c = n # c' \<and> parentWalk c"
  then obtain c' where "c = n # c'" "parentWalk (n # c')" by auto
  with chainLoop_walk [of n c' "[n]"] assms show "getAncestryChain n = Some (Inr c)"
    by (simp add: getAncestryChain_def validatePositiveInteger_def)
qed

lemma getAncestryChain_3: "getAncestryChain 3 = Some (Inr [3, 5, 1])"
  using getAncestryChain_returns_walk [of 3 "[3, 5, 1]"] by (simp add: getParent_3 getParent_5)

text \<open>
  C5. The spec states that \<open>ancestryChain(n)\<close> returns the sequence \<open>[n, \<dots>, 1]\<close>
  for every positive integer \<open>n\<close> or fails with an addressing-divergence error, and the
  documentation of \<open>getAncestryChain\<close> promises the array from \<open>n\<close> to 1. At
  \<open>n = 1431655765\<close> (odd, with \<open>3n + 1 = 2^32\<close>) the call does neither: the first
  \<open>getParent\<close> calls \<open>getOddPart(4294967296)\<close>, where \<open>n & 1\<close> is 0 and
  \<open>n >> 1\<close> is 0 for ever.
\<close>
theorem getAncestryChain_1431655765_diverges:
  "(1::int) \<le> 1431655765 \<and> getAncestryChain 1431655765 = None"
proof -
  have "getOddPart 4294967296 = None"
    by (simp add: getOddPart_def validatePositiveInteger_def oddPartLoop_diverges toInt32_def)
  then have "getParent 1431655765 = None"
    by (simp add: getParent_def validatePositiveInteger_def bitAnd1_mod2)
  then have "chainLoop 1431655765 [1431655765] = None"
    by (subst chainLoop.simps) simp
  then show ?thesis
    by (simp add: getAncestryChain_def validatePositiveInteger_def)
qed

text \<open>
  C6. The spec states that \<open>mintChild\<close> returns the smallest unused admissible child
  or fails with \<open>NoAvailableChild\<close>, for every positive \<open>parentId\<close>. At
  \<open>parentID = 4\<close> with no used ids the search reaches exponent \<open>k = 30\<close>, candidate
  \<open>(2^32 - 1) / 3 = 1431655765\<close>, whose verification calls
  \<open>getOddPart(4294967296)\<close>; there \<open>n & 1\<close> is 0 and \<open>n >> 1\<close> is 0 for ever, so
  \<open>mintNextChild\<close> does not return.
\<close>
theorem mintNextChild_4_diverges: "mintNextChild 4 [] = None"
proof -
  have "getOddPart 4294967296 = None"
    by (simp add: getOddPart_def validatePositiveInteger_def oddPartLoop_diverges toInt32_def)
  then have "getParent 1431655765 = None"
    by (simp add: getParent_def validatePositiveInteger_def bitAnd1_mod2)
  then have step: "associateStep 4 30 c = None" for c
    by (simp add: associateStep_def jsRem_def bitAnd1_mod2)
  have "associatesLoop 4 [1..<Suc 30] [] = None"
    by (rule associatesLoop_diverges [where k = 30]) (simp_all add: step)
  then show ?thesis
    by (simp add: mintNextChild_def findAdmissibleAssociates_def validatePositiveInteger_def)
qed

text \<open>
  C7. The spec states \<open>oddPart(2^k \<cdot> m) = m\<close> for odd \<open>m\<close> and every \<open>k \<ge> 0\<close>,
  as does the documentation of \<open>getOddPart\<close>. At \<open>k = 31\<close>, \<open>m = 1\<close> the code
  returns \<open>-1\<close>: \<open>n >> 1\<close> reads \<open>2^31\<close> as the 32-bit value \<open>-2^31\<close>.
  (For \<open>2^k \<cdot> m < 2^31\<close> the claim holds, \<open>oddPartLoop_pow2_mult\<close>; the failure
  with \<open>InvalidId\<close> is exactly at \<open>n < 1\<close>, \<open>getOddPart_invalid\<close>; at
  \<open>2^32\<close> the loop does not end, \<open>getOddPart_2_32\<close>.)
\<close>
theorem getOddPart_2_31: "getOddPart (2 ^ 31 * 1) = Some (Inr (- 1))"
  apply (simp add: getOddPart_def validatePositiveInteger_def)
  apply (simp add: oddPartLoop_even oddPartLoop_odd bitAnd1_mod2 shr1_def toInt32_def drop_bit_eq_div)
  done

text \<open>
  C10. \<open>mintNextVersion(n)\<close> returns \<open>2n\<close>, but the parent of the minted version is
  not always \<open>n\<close>: at \<open>n = 2^30 = 1073741824\<close> the version is \<open>2^31\<close>, and
  \<open>getParent\<close> computes \<open>2^31 >> 1 = -1073741824\<close>.
\<close>
theorem mintNextVersion_parent_2_30:
  "mintNextVersion 1073741824 = Inr 2147483648 \<and>
   getParent 2147483648 = Some (Inr (Some (- 1073741824)))"
  by (simp add: mintNextVersion_def getParent_def validatePositiveInteger_def bitAnd1_mod2 shr1_def toInt32_def drop_bit_eq_div)

section \<open>Properties of the tree\<close>

subsection \<open>The post-order pass on a represented tree\<close>

lemma rroot_in_pre: "rroot T \<in> set (pre T)"
  by (cases T) simp

lemma set_post_pre: "set (post T) = set (pre T)"
  by (induction T) auto

lemma repr_cong:
  "(\<And>x. x \<in> set (pre T) \<Longrightarrow> children (h' x) = children (h x) \<and> parent (h' x) = parent (h x))
   \<Longrightarrow> repr h' T = repr h T"
proof (induction T)
  case (RNode r ts)
  have sub: "repr h' t = repr h t" if "t \<in> set ts" for t
    using that RNode.prems by (intro RNode.IH) auto
  have par: "parent (h' (rroot t)) = parent (h (rroot t))" if "t \<in> set ts" for t
    using that RNode.prems [of "rroot t"] rroot_in_pre [of t] by auto
  have "children (h' r) = children (h r)" using RNode.prems [of r] by simp
  with sub par show ?case by auto
qed

lemma fold_assignQ2_fields:
  assumes "\<And>t s. t \<in> set ts \<Longrightarrow> \<exists>q. fst (assignQ2 t s) x = (fst s x)\<lparr>q2 := q\<rparr>"
  shows "\<exists>q. fst (fold assignQ2 ts s) x = (fst s x)\<lparr>q2 := q\<rparr>"
  using assms
proof (induction ts arbitrary: s)
  case Nil
  have "fst s x = (fst s x)\<lparr>q2 := q2 (fst s x)\<rparr>" by simp
  then show ?case unfolding fold.simps id_apply by (rule exI)
next
  case (Cons t ts)
  obtain qa where qa: "fst (assignQ2 t s) x = (fst s x)\<lparr>q2 := qa\<rparr>"
    using Cons.prems [of t s] by auto
  obtain qb where qb: "fst (fold assignQ2 ts (assignQ2 t s)) x = (fst (assignQ2 t s) x)\<lparr>q2 := qb\<rparr>"
    using Cons.IH [of "assignQ2 t s"] Cons.prems by auto
  show ?case
    by (rule exI [of _ qb]) (simp add: qa qb)
qed

lemma assignQ2_fields: "\<exists>q. fst (assignQ2 T s) x = (fst s x)\<lparr>q2 := q\<rparr>"
proof (induction T arbitrary: s)
  case (RNode r ts)
  obtain q where e: "fst (fold assignQ2 ts s) x = (fst s x)\<lparr>q2 := q\<rparr>"
    using fold_assignQ2_fields [of ts x s] RNode.IH by blast
  show ?case
  proof (cases "x = r")
    case True
    with e have "fst (assignQ2 (RNode r ts) s) x =
        (fst s x)\<lparr>q2 := snd (fold assignQ2 ts s) + INITIAL_SPACING\<rparr>"
      by (simp add: split_beta Let_def)
    then show ?thesis ..
  next
    case False
    with e have "fst (assignQ2 (RNode r ts) s) x = (fst s x)\<lparr>q2 := q\<rparr>"
      by (simp add: split_beta Let_def)
    then show ?thesis ..
  qed
qed

lemma assignQ2_children [simp]: "children (fst (assignQ2 T s) x) = children (fst s x)"
  using assignQ2_fields [of T s x] by auto

lemma assignQ2_parent [simp]: "parent (fst (assignQ2 T s) x) = parent (fst s x)"
  using assignQ2_fields [of T s x] by auto

lemma assignQ2_q1 [simp]: "q1 (fst (assignQ2 T s) x) = q1 (fst s x)"
  using assignQ2_fields [of T s x] by auto

lemma assignQ2_nodeId [simp]: "nodeId (fst (assignQ2 T s) x) = nodeId (fst s x)"
  using assignQ2_fields [of T s x] by auto

lemma assignQ2_prevSibling [simp]: "prevSibling (fst (assignQ2 T s) x) = prevSibling (fst s x)"
  using assignQ2_fields [of T s x] by auto

lemma assignQ2_nextSibling [simp]: "nextSibling (fst (assignQ2 T s) x) = nextSibling (fst s x)"
  using assignQ2_fields [of T s x] by auto

lemma assignQ2_frame: "fst (assignQ2 T s) x = (fst s x)\<lparr>q2 := q2 (fst (assignQ2 T s) x)\<rparr>"
proof -
  obtain q where q: "fst (assignQ2 T s) x = (fst s x)\<lparr>q2 := q\<rparr>"
    using assignQ2_fields [of T s x] by blast
  then have "q2 (fst (assignQ2 T s) x) = q" by simp
  with q show ?thesis by simp
qed

lemma repr_assignQ2 [simp]: "repr (fst (assignQ2 T s)) U = repr (fst s) U"
  by (rule repr_cong) simp

lemma traverse_forest:
  assumes "\<And>t s. t \<in> set ts \<Longrightarrow> repr (fst s) t \<Longrightarrow>
            traverseRec (Inl (rroot t)) s = Some (assignQ2 t s)"
    and "\<forall>t \<in> set ts. repr (fst s) t"
  shows "traverseRec (Inr (map rroot ts)) s = Some (fold assignQ2 ts s)"
  using assms
proof (induction ts arbitrary: s)
  case Nil
  then show ?case by (subst traverseRec.simps) simp
next
  case (Cons t ts)
  have t: "traverseRec (Inl (rroot t)) s = Some (assignQ2 t s)"
    by (rule Cons.prems(1)) (simp_all add: Cons.prems(2))
  have rest: "traverseRec (Inr (map rroot ts)) (assignQ2 t s) = Some (fold assignQ2 ts (assignQ2 t s))"
    by (rule Cons.IH) (use Cons.prems in auto)
  show ?case
    by (subst traverseRec.simps) (simp add: t rest)
qed

lemma traverse_tree:
  "repr (fst s) T \<Longrightarrow> traverseRec (Inl (rroot T)) s = Some (assignQ2 T s)"
proof (induction T arbitrary: s)
  case (RNode r ts)
  have "traverseRec (Inr (map rroot ts)) s = Some (fold assignQ2 ts s)"
    by (rule traverse_forest) (use RNode in auto)
  moreover have "children (fst s r) = map rroot ts" using RNode.prems by simp
  ultimately show ?case
    by (subst traverseRec.simps) (simp add: split_beta Let_def)
qed

lemma INITIAL_SPACING_pos: "0 < INITIAL_SPACING"
  by (simp add: INITIAL_SPACING_def)

lemma distinct_concat_member:
  "distinct (concat (map f ts)) \<Longrightarrow> t \<in> set ts \<Longrightarrow> distinct (f t)"
  by (induction ts) auto

lemma sorted_wrt_concat_member:
  "sorted_wrt P (concat (map f ts)) \<Longrightarrow> t \<in> set ts \<Longrightarrow> sorted_wrt P (f t)"
  by (induction ts) (auto simp add: sorted_wrt_append)

lemma isAnc_in: "isAnc T a b \<Longrightarrow> a \<in> set (pre T) \<and> b \<in> set (pre T)"
proof (induction T)
  case (RNode r ts)
  then show ?case by auto
qed

subsection \<open>What the post-order pass assigns\<close>

lemma fold_assignQ2_outside:
  assumes "\<And>t s. t \<in> set ts \<Longrightarrow> x \<notin> set (pre t) \<Longrightarrow> fst (assignQ2 t s) x = fst s x"
    and "x \<notin> set (concat (map pre ts))"
  shows "fst (fold assignQ2 ts s) x = fst s x"
  using assms by (induction ts arbitrary: s) auto

lemma assignQ2_outside: "x \<notin> set (pre T) \<Longrightarrow> fst (assignQ2 T s) x = fst s x"
proof (induction T arbitrary: s)
  case (RNode r ts)
  have "fst (fold assignQ2 ts s) x = fst s x"
    by (rule fold_assignQ2_outside) (use RNode in auto)
  with RNode.prems show ?case by (simp add: split_beta Let_def)
qed

lemma fold_assignQ2_counter:
  assumes "\<And>t s. t \<in> set ts \<Longrightarrow> snd s < snd (assignQ2 t s)"
  shows "snd s \<le> snd (fold assignQ2 ts s)"
  using assms
proof (induction ts arbitrary: s)
  case Nil
  then show ?case by simp
next
  case (Cons t ts)
  have "snd s < snd (assignQ2 t s)" by (rule Cons.prems) simp
  moreover have "snd (assignQ2 t s) \<le> snd (fold assignQ2 ts (assignQ2 t s))"
    by (rule Cons.IH) (simp add: Cons.prems)
  ultimately show ?case by simp
qed

lemma assignQ2_counter: "snd s < snd (assignQ2 T s)"
proof (induction T arbitrary: s)
  case (RNode r ts)
  have "snd s \<le> snd (fold assignQ2 ts s)"
    by (rule fold_assignQ2_counter) (rule RNode.IH)
  then show ?case using INITIAL_SPACING_pos by (simp add: split_beta Let_def)
qed

lemma fold_assignQ2_counter_le: "snd s \<le> snd (fold assignQ2 ts s)"
  by (rule fold_assignQ2_counter) (rule assignQ2_counter)

lemma fold_assignQ2_outside': 
  "x \<notin> set (concat (map pre ts)) \<Longrightarrow> fst (fold assignQ2 ts s) x = fst s x"
  by (rule fold_assignQ2_outside) (auto simp add: assignQ2_outside)

lemma fold_assignQ2_range:
  assumes "\<And>t s x. t \<in> set ts \<Longrightarrow> x \<in> set (pre t) \<Longrightarrow>
      snd s < q2 (fst (assignQ2 t s) x) \<and> q2 (fst (assignQ2 t s) x) \<le> snd (assignQ2 t s)"
    and "x \<in> set (concat (map pre ts))"
  shows "snd s < q2 (fst (fold assignQ2 ts s) x) \<and>
         q2 (fst (fold assignQ2 ts s) x) \<le> snd (fold assignQ2 ts s)"
  using assms
proof (induction ts arbitrary: s)
  case Nil
  then show ?case by simp
next
  case (Cons t ts)
  let ?s1 = "assignQ2 t s"
  show ?case
  proof (cases "x \<in> set (concat (map pre ts))")
    case True
    have "snd ?s1 < q2 (fst (fold assignQ2 ts ?s1) x) \<and>
          q2 (fst (fold assignQ2 ts ?s1) x) \<le> snd (fold assignQ2 ts ?s1)"
      by (rule Cons.IH) (use Cons.prems True in auto)
    moreover have "snd s < snd ?s1" by (rule assignQ2_counter)
    ultimately show ?thesis by simp
  next
    case False
    with Cons.prems(2) have x: "x \<in> set (pre t)" by simp
    have "fst (fold assignQ2 ts ?s1) x = fst ?s1 x"
      using False by (rule fold_assignQ2_outside')
    moreover have "snd s < q2 (fst ?s1 x) \<and> q2 (fst ?s1 x) \<le> snd ?s1"
      by (rule Cons.prems(1)) (simp_all add: x)
    moreover have "snd ?s1 \<le> snd (fold assignQ2 ts ?s1)"
      by (rule fold_assignQ2_counter_le)
    ultimately show ?thesis by simp
  qed
qed

lemma assignQ2_range:
  "x \<in> set (pre T) \<Longrightarrow>
   snd s < q2 (fst (assignQ2 T s) x) \<and> q2 (fst (assignQ2 T s) x) \<le> snd (assignQ2 T s)"
proof (induction T arbitrary: s x)
  case (RNode r ts)
  show ?case
  proof (cases "x = r")
    case True
    then show ?thesis
      using fold_assignQ2_counter_le [of s ts] INITIAL_SPACING_pos
      by (simp add: split_beta Let_def)
  next
    case False
    with RNode.prems have x: "x \<in> set (concat (map pre ts))" by simp
    have "snd s < q2 (fst (fold assignQ2 ts s) x) \<and>
          q2 (fst (fold assignQ2 ts s) x) \<le> snd (fold assignQ2 ts s)"
      by (rule fold_assignQ2_range) (use RNode.IH x in auto)
    with False show ?thesis using INITIAL_SPACING_pos by (simp add: split_beta Let_def)
  qed
qed

lemma fold_assignQ2_range':
  "x \<in> set (concat (map pre ts)) \<Longrightarrow>
   snd s < q2 (fst (fold assignQ2 ts s) x) \<and>
   q2 (fst (fold assignQ2 ts s) x) \<le> snd (fold assignQ2 ts s)"
  by (rule fold_assignQ2_range) (auto simp add: assignQ2_range)

lemma fold_assignQ2_sorted:
  assumes "\<And>t s. t \<in> set ts \<Longrightarrow> distinct (pre t) \<Longrightarrow>
      sorted_wrt (<) (map (\<lambda>x. q2 (fst (assignQ2 t s) x)) (post t))"
    and "distinct (concat (map pre ts))"
  shows "sorted_wrt (<) (map (\<lambda>x. q2 (fst (fold assignQ2 ts s) x)) (concat (map post ts)))"
  using assms
proof (induction ts arbitrary: s)
  case Nil
  then show ?case by simp
next
  case (Cons t ts)
  let ?s1 = "assignQ2 t s"
  let ?F = "fold assignQ2 ts ?s1"
  from Cons.prems(2) have dt: "distinct (pre t)" and dts: "distinct (concat (map pre ts))"
    and disj: "set (pre t) \<inter> set (concat (map pre ts)) = {}"
    by auto
  have same: "fst ?F x = fst ?s1 x" if "x \<in> set (post t)" for x
    using that disj by (intro fold_assignQ2_outside') (auto simp add: set_post_pre)
  have eq: "map (\<lambda>x. q2 (fst ?F x)) (post t) = map (\<lambda>x. q2 (fst ?s1 x)) (post t)"
    by (rule map_cong) (simp_all add: same)
  have 1: "sorted_wrt (<) (map (\<lambda>x. q2 (fst ?F x)) (post t))"
    unfolding eq by (rule Cons.prems(1)) (simp_all add: dt)
  have 2: "sorted_wrt (<) (map (\<lambda>x. q2 (fst ?F x)) (concat (map post ts)))"
    by (rule Cons.IH) (use Cons.prems(1) dts in auto)
  have 3: "q2 (fst ?F x) < q2 (fst ?F y)"
    if "x \<in> set (post t)" and "y \<in> set (concat (map post ts))" for x y
  proof -
    have "q2 (fst ?F x) \<le> snd ?s1"
      using that(1) same assignQ2_range [of x t s] by (simp add: set_post_pre)
    moreover have "snd ?s1 < q2 (fst ?F y)"
      using that(2) fold_assignQ2_range' [of y ts ?s1] by (auto simp add: set_post_pre)
    ultimately show ?thesis by simp
  qed
  show ?case
    using 1 2 3 by (auto simp add: sorted_wrt_append)
qed

lemma assignQ2_sorted:
  "distinct (pre T) \<Longrightarrow> sorted_wrt (<) (map (\<lambda>x. q2 (fst (assignQ2 T s) x)) (post T))"
proof (induction T arbitrary: s)
  case (RNode r ts)
  let ?F = "fold assignQ2 ts s"
  let ?h' = "fst (assignQ2 (RNode r ts) s)"
  from RNode.prems have r: "r \<notin> set (concat (map pre ts))"
    and dts: "distinct (concat (map pre ts))" by auto
  have same: "?h' x = fst ?F x" if "x \<in> set (concat (map post ts))" for x
  proof -
    from that have "x \<in> set (concat (map pre ts))" by (auto simp add: set_post_pre)
    with r have "x \<noteq> r" by blast
    then show ?thesis by (simp add: split_beta Let_def)
  qed
  have eq: "map (\<lambda>x. q2 (?h' x)) (concat (map post ts)) =
      map (\<lambda>x. q2 (fst ?F x)) (concat (map post ts))"
    by (rule map_cong) (simp_all only: same)
  have 1: "sorted_wrt (<) (map (\<lambda>x. q2 (?h' x)) (concat (map post ts)))"
    unfolding eq by (rule fold_assignQ2_sorted) (use RNode.IH dts in auto)
  have 2: "q2 (?h' x) < q2 (?h' r)" if "x \<in> set (concat (map post ts))" for x
  proof -
    have "x \<in> set (concat (map pre ts))" using that by (auto simp add: set_post_pre)
    then have "q2 (fst ?F x) \<le> snd ?F" using fold_assignQ2_range' [of x ts s] by simp
    moreover have "q2 (?h' r) = snd ?F + INITIAL_SPACING" by (simp add: split_beta Let_def)
    ultimately show ?thesis using same [OF that] INITIAL_SPACING_pos by simp
  qed
  show ?case
    using 1 2 by (auto simp add: sorted_wrt_append simp del: assignQ2.simps)
qed

subsection \<open>Ancestors in pre-order and post-order\<close>

lemma post_order_anc:
  "distinct (pre T) \<Longrightarrow> sorted_wrt (<) (map g (post T)) \<Longrightarrow> isAnc T a b \<Longrightarrow>
   (g b :: int) < g a"
proof (induction T)
  case (RNode r ts)
  from RNode.prems(3) consider "a = r" "b \<in> set (concat (map pre ts))"
    | t where "t \<in> set ts" "isAnc t a b" by auto
  then show ?case
  proof cases
    case 1
    then have "b \<in> set (concat (map post ts))" by (auto simp add: set_post_pre)
    moreover from RNode.prems(2) have "\<forall>x \<in> set (concat (map post ts)). g x < g r"
      by (simp add: sorted_wrt_append)
    ultimately show ?thesis using 1(1) by blast
  next
    case 2
    have "distinct (pre t)"
      using RNode.prems(1) 2(1) by (auto intro: distinct_concat_member)
    moreover have "sorted_wrt (<) (map g (post t))"
    proof -
      from RNode.prems(2) have "sorted_wrt (\<lambda>x y. g x < g y) (concat (map post ts))"
        by (simp add: sorted_wrt_append sorted_wrt_map)
      from sorted_wrt_concat_member [OF this 2(1)] show ?thesis by (simp add: sorted_wrt_map)
    qed
    ultimately show ?thesis using RNode.IH 2 by blast
  qed
qed

lemma forest_anc_iff:
  fixes f g :: "ref \<Rightarrow> int"
  assumes IH: "\<And>t a b. t \<in> set ts \<Longrightarrow> distinct (pre t) \<Longrightarrow>
      sorted_wrt (\<lambda>x y. f x < f y) (pre t) \<Longrightarrow> sorted_wrt (\<lambda>x y. g x < g y) (post t) \<Longrightarrow>
      a \<in> set (pre t) \<Longrightarrow> b \<in> set (pre t) \<Longrightarrow> isAnc t a b = (f a < f b \<and> g b < g a)"
    and "distinct (concat (map pre ts))"
    and "sorted_wrt (\<lambda>x y. f x < f y) (concat (map pre ts))"
    and "sorted_wrt (\<lambda>x y. g x < g y) (concat (map post ts))"
    and "a \<in> set (concat (map pre ts))" and "b \<in> set (concat (map pre ts))"
  shows "(\<exists>t \<in> set ts. isAnc t a b) = (f a < f b \<and> g b < g a)"
  using assms
proof (induction ts)
  case Nil
  then show ?case by simp
next
  case (Cons t ts)
  from Cons.prems(2) have dt: "distinct (pre t)" and dts: "distinct (concat (map pre ts))"
    and disj: "\<And>x. x \<in> set (pre t) \<Longrightarrow> x \<notin> set (concat (map pre ts))"
    by auto
  from Cons.prems(3) have ft: "sorted_wrt (\<lambda>x y. f x < f y) (pre t)"
    and fts: "sorted_wrt (\<lambda>x y. f x < f y) (concat (map pre ts))"
    and fx: "\<And>x y. x \<in> set (pre t) \<Longrightarrow> y \<in> set (concat (map pre ts)) \<Longrightarrow> f x < f y"
    by (auto simp add: sorted_wrt_append)
  from Cons.prems(4) have gt: "sorted_wrt (\<lambda>x y. g x < g y) (post t)"
    and gts: "sorted_wrt (\<lambda>x y. g x < g y) (concat (map post ts))"
    and gx: "\<And>x y. x \<in> set (pre t) \<Longrightarrow> y \<in> set (concat (map pre ts)) \<Longrightarrow> g x < g y"
    by (auto simp add: sorted_wrt_append set_post_pre)
  have inF: "a \<in> set (concat (map pre ts)) \<and> b \<in> set (concat (map pre ts))"
    if "t' \<in> set ts" "isAnc t' a b" for t'
    using that isAnc_in [of t' a b] by auto
  have rest: "(\<exists>t \<in> set ts. isAnc t a b) = (f a < f b \<and> g b < g a)"
    if "a \<in> set (concat (map pre ts))" "b \<in> set (concat (map pre ts))"
    by (rule Cons.IH) (use Cons.prems(1) dts fts gts that in auto)
  show ?case
  proof (cases "a \<in> set (pre t)")
    case a: True
    show ?thesis
    proof (cases "b \<in> set (pre t)")
      case b: True
      have "isAnc t a b = (f a < f b \<and> g b < g a)"
        by (rule Cons.prems(1)) (use dt ft gt a b in auto)
      moreover have "\<not> (\<exists>t' \<in> set ts. isAnc t' a b)"
        using inF disj [OF a] by blast
      ultimately show ?thesis by auto
    next
      case False
      with Cons.prems(6) have b: "b \<in> set (concat (map pre ts))" by simp
      have "\<not> isAnc t a b" using isAnc_in [of t a b] False by blast
      moreover have "\<not> (\<exists>t' \<in> set ts. isAnc t' a b)"
        using inF disj [OF a] by blast
      moreover have "g a < g b" using gx a b by blast
      ultimately show ?thesis by auto
    qed
  next
    case False
    with Cons.prems(5) have a: "a \<in> set (concat (map pre ts))" by simp
    have na: "\<not> isAnc t a b" using isAnc_in [of t a b] False by blast
    show ?thesis
    proof (cases "b \<in> set (pre t)")
      case b: True
      have "\<not> (\<exists>t' \<in> set ts. isAnc t' a b)"
        using inF disj [OF b] by blast
      moreover have "f b < f a" using fx a b by blast
      ultimately show ?thesis using na by auto
    next
      case False
      with Cons.prems(6) have b: "b \<in> set (concat (map pre ts))" by simp
      show ?thesis using rest [OF a b] na by auto
    qed
  qed
qed

lemma pre_post_anc_iff:
  fixes f g :: "ref \<Rightarrow> int"
  shows "distinct (pre T) \<Longrightarrow>
    sorted_wrt (\<lambda>x y. f x < f y) (pre T) \<Longrightarrow> sorted_wrt (\<lambda>x y. g x < g y) (post T) \<Longrightarrow>
    a \<in> set (pre T) \<Longrightarrow> b \<in> set (pre T) \<Longrightarrow> isAnc T a b = (f a < f b \<and> g b < g a)"
proof (induction T arbitrary: a b)
  case (RNode r ts)
  from RNode.prems(1) have r: "r \<notin> set (concat (map pre ts))"
    and dts: "distinct (concat (map pre ts))" by auto
  from RNode.prems(2) have fts: "sorted_wrt (\<lambda>x y. f x < f y) (concat (map pre ts))"
    and fr: "\<And>x. x \<in> set (concat (map pre ts)) \<Longrightarrow> f r < f x" by auto
  from RNode.prems(3) have gts: "sorted_wrt (\<lambda>x y. g x < g y) (concat (map post ts))"
    and gr: "\<And>x. x \<in> set (concat (map pre ts)) \<Longrightarrow> g x < g r"
    by (auto simp add: sorted_wrt_append set_post_pre)
  have inF: "a \<in> set (concat (map pre ts)) \<and> b \<in> set (concat (map pre ts))"
    if "t' \<in> set ts" "isAnc t' a b" for t' a b
    using that isAnc_in [of t' a b] by auto
  have forest: "(\<exists>t \<in> set ts. isAnc t a b) = (f a < f b \<and> g b < g a)"
    if "a \<in> set (concat (map pre ts))" "b \<in> set (concat (map pre ts))"
    by (rule forest_anc_iff [OF _ dts fts gts that]) (rule RNode.IH)
  show ?case
  proof (cases "a = r")
    case a: True
    show ?thesis
    proof (cases "b = r")
      case True
      have "\<not> (\<exists>t \<in> set ts. isAnc t r r)" using inF r by blast
      with a True r show ?thesis by simp
    next
      case False
      with RNode.prems(5) have "b \<in> set (concat (map pre ts))" by simp
      with a fr gr show ?thesis by auto
    qed
  next
    case False
    with RNode.prems(4) have a: "a \<in> set (concat (map pre ts))" by simp
    show ?thesis
    proof (cases "b = r")
      case True
      have "\<not> (\<exists>t \<in> set ts. isAnc t a b)" using inF r True by blast
      moreover have "f b < f a" using fr a True by simp
      ultimately show ?thesis using False by auto
    next
      case nb: False
      with RNode.prems(5) have b: "b \<in> set (concat (map pre ts))" by simp
      show ?thesis using forest [OF a b] False by auto
    qed
  qed
qed

subsection \<open>Subtrees and ancestry paths of a represented tree\<close>

lemma subtree_forest:
  assumes "\<And>t. t \<in> set ts \<Longrightarrow> subtreeRec h (Inl (rroot t)) = Some (pre t)"
  shows "subtreeRec h (Inr (map rroot ts)) = Some (concat (map pre ts))"
  using assms
proof (induction ts)
  case Nil
  then show ?case by (subst subtreeRec.simps) simp
next
  case (Cons t ts)
  then show ?case by (subst subtreeRec.simps) simp
qed

lemma subtree_tree: "repr h T \<Longrightarrow> subtreeRec h (Inl (rroot T)) = Some (pre T)"
proof (induction T)
  case (RNode r ts)
  have "subtreeRec h (Inr (map rroot ts)) = Some (concat (map pre ts))"
    by (rule subtree_forest) (use RNode in auto)
  with RNode.prems show ?case by (subst subtreeRec.simps) simp
qed

lemma getSubtree_root: "repr h T \<Longrightarrow> getSubtree h (rroot T) = Some (pre T)"
  by (simp add: getSubtree_def subtree_tree)

lemma pre_member_cases:
  assumes "n \<in> set (pre (RNode r ts))" "distinct (pre (RNode r ts))"
  obtains "n = r" "n \<notin> set (concat (map pre ts))"
  | t where "t \<in> set ts" "n \<in> set (pre t)" "n \<noteq> r"
      "\<And>t'. t' \<in> set ts \<Longrightarrow> t' \<noteq> t \<Longrightarrow> n \<notin> set (pre t')"
proof (cases "n = r")
  case True
  with assms that(1) show ?thesis by auto
next
  case False
  with assms(1) obtain t where t: "t \<in> set ts" "n \<in> set (pre t)" by auto
  from t(1) obtain us vs where ts: "ts = us @ t # vs" by (auto simp add: in_set_conv_decomp)
  from assms(2) have "distinct (concat (map pre us) @ pre t @ concat (map pre vs))"
    by (simp add: ts)
  with t(2) have nus: "n \<notin> set (concat (map pre us))" and nvs: "n \<notin> set (concat (map pre vs))"
    by auto
  have "n \<notin> set (pre t')" if "t' \<in> set ts" "t' \<noteq> t" for t'
  proof -
    from that ts have "t' \<in> set us \<or> t' \<in> set vs" by auto
    with nus nvs show ?thesis by auto
  qed
  with t False that(2) show ?thesis by blast
qed

lemma getSubtree_member:
  "repr h T \<Longrightarrow> distinct (pre T) \<Longrightarrow> n \<in> set (pre T) \<Longrightarrow>
   \<exists>ns. getSubtree h n = Some (n # ns) \<and> (\<forall>d. d \<in> set ns \<longleftrightarrow> isAnc T n d)"
proof (induction T)
  case (RNode r ts)
  from RNode.prems(3,2) show ?case
  proof (cases rule: pre_member_cases)
    case 1
    have "\<not> isAnc t r d" if "t \<in> set ts" for t d
      using that isAnc_in [of t r d] 1 by auto
    with 1 getSubtree_root [OF RNode.prems(1)] show ?thesis by auto
  next
    case (2 t)
    have "repr h t" "distinct (pre t)"
      using RNode.prems 2(1) by (auto intro: distinct_concat_member)
    from RNode.IH [OF 2(1) this 2(2)] obtain ns
      where ns: "getSubtree h n = Some (n # ns)" "\<And>d. d \<in> set ns \<longleftrightarrow> isAnc t n d" by blast
    have "isAnc (RNode r ts) n d = isAnc t n d" for d
    proof -
      have "t' = t" if "t' \<in> set ts" "isAnc t' n d" for t'
        using that 2(4) [of t'] isAnc_in [of t' n d] by blast
      with 2(1,3) show ?thesis by auto
    qed
    with ns show ?thesis by simp
  qed
qed

lemma ancestryLoop_Some:
  "ancestryLoop h (Some c) path = ancestryLoop h (parent (h c)) (path @ [c])"
  by (subst ancestryLoop.simps) simp

lemma ancestryLoop_None: "ancestryLoop h None path = Some path"
  by (subst ancestryLoop.simps) simp

lemma ancestry_member:
  "repr h T \<Longrightarrow> distinct (pre T) \<Longrightarrow> b \<in> set (pre T) \<Longrightarrow>
   \<exists>as. (\<forall>acc. ancestryLoop h (Some b) acc =
               ancestryLoop h (parent (h (rroot T))) (acc @ b # as)) \<and>
        (\<forall>a. a \<in> set as \<longleftrightarrow> isAnc T a b) \<and>
        sorted_wrt (\<lambda>x y. isAnc T y x) (b # as)"
proof (induction T)
  case (RNode r ts)
  from RNode.prems(3,2) show ?case
  proof (cases rule: pre_member_cases)
    case 1
    have "\<not> isAnc t a r" if "t \<in> set ts" for t a
      using that isAnc_in [of t a r] 1 by auto
    then have "\<not> isAnc (RNode r ts) a r" for a using 1 by auto
    with 1 ancestryLoop_Some [of h r] show ?thesis
      by (intro exI [of _ "[]"]) simp
  next
    case (2 t)
    have rt: "repr h t" "distinct (pre t)" and pt: "parent (h (rroot t)) = Some r"
      using RNode.prems 2(1) by (auto intro: distinct_concat_member)
    from RNode.IH [OF 2(1) rt 2(2)] obtain as
      where as: "\<And>acc. ancestryLoop h (Some b) acc =
                  ancestryLoop h (parent (h (rroot t))) (acc @ b # as)"
        "\<And>a. a \<in> set as \<longleftrightarrow> isAnc t a b"
        "sorted_wrt (\<lambda>x y. isAnc t y x) (b # as)" by blast
    have anc: "isAnc (RNode r ts) a b = (a = r \<or> isAnc t a b)" for a
    proof -
      have "t' = t" if "t' \<in> set ts" "isAnc t' a b" for t'
        using that 2(4) [of t'] isAnc_in [of t' a b] by blast
      moreover have "b \<in> set (concat (map pre ts))" using 2(1,2) by auto
      ultimately show ?thesis using 2(1) by auto
    qed
    have "ancestryLoop h (Some b) acc = ancestryLoop h (parent (h r)) (acc @ b # as @ [r])" for acc
      using as(1) [of acc] pt ancestryLoop_Some [of h r "acc @ b # as"] by simp
    moreover have "sorted_wrt (\<lambda>x y. isAnc (RNode r ts) y x) (b # as @ [r])"
    proof -
      have in_t: "set (b # as) \<subseteq> set (pre t)"
        using as(2) isAnc_in [of t _ b] 2(2) by auto
      have "sorted_wrt (\<lambda>x y. isAnc (RNode r ts) y x) (b # as)"
        using as(3) 2(1) by (rule_tac sorted_wrt_mono_rel [of _ "\<lambda>x y. isAnc t y x"]) auto
      moreover have "isAnc (RNode r ts) r x" if "x \<in> set (b # as)" for x
        using that in_t 2(1) by auto
      ultimately have "sorted_wrt (\<lambda>x y. isAnc (RNode r ts) y x) ((b # as) @ [r])"
        unfolding sorted_wrt_append by simp
      then show ?thesis by simp
    qed
    ultimately show ?thesis using as(2) anc
      by (intro exI [of _ "as @ [r]"]) auto
  qed
qed

lemma getAncestryPath_member:
  assumes "repr h T" "distinct (pre T)" "b \<in> set (pre T)" "parent (h (rroot T)) = None"
  shows "\<exists>as. getAncestryPath h b = Some (b # as) \<and> (\<forall>a. a \<in> set as \<longleftrightarrow> isAnc T a b) \<and>
              sorted_wrt (\<lambda>x y. isAnc T y x) (b # as)"
proof -
  from ancestry_member [OF assms(1-3)] obtain as
    where as: "\<And>acc. ancestryLoop h (Some b) acc =
                ancestryLoop h (parent (h (rroot T))) (acc @ b # as)"
      "\<And>a. a \<in> set as \<longleftrightarrow> isAnc T a b"
      "sorted_wrt (\<lambda>x y. isAnc T y x) (b # as)" by blast
  have "getAncestryPath h b = ancestryLoop h (Some b) []"
    by (simp add: getAncestryPath_def ancestryLoop_Some)
  with as assms(4) show ?thesis by (auto simp add: ancestryLoop_None)
qed

subsection \<open>Shaped trees\<close>

lemma shaped_treeNodes: "shaped t T \<Longrightarrow> treeNodes t = set (pre T)"
  using getSubtree_root [of "heap t" T] by (auto simp add: shaped_def treeNodes_def)

lemma shaped_isAncestor:
  "shaped t T \<Longrightarrow> b \<in> set (pre T) \<Longrightarrow> isAncestor (heap t) a b = isAnc T a b"
  using getAncestryPath_member [of "heap t" T b]
  by (auto simp add: shaped_def isAncestor_def)

lemma shaped_isDescendant:
  "shaped t T \<Longrightarrow> n \<in> set (pre T) \<Longrightarrow> isDescendant (heap t) d n = isAnc T n d"
  using getSubtree_member [of "heap t" T n]
  by (auto simp add: shaped_def isDescendant_def)

lemma shaped_recalculateQ2:
  assumes "shaped t T"
  shows "recalculateQ2 t = Some (t\<lparr>heap := fst (assignQ2 T (heap t, 0))\<rparr>)"
    and "shaped (t\<lparr>heap := fst (assignQ2 T (heap t, 0))\<rparr>) T"
proof -
  from assms have "traverseRec (Inl (root t)) (heap t, 0) = Some (assignQ2 T (heap t, 0))"
    using traverse_tree [of "(heap t, 0)" T] by (simp add: shaped_def)
  then show "recalculateQ2 t = Some (t\<lparr>heap := fst (assignQ2 T (heap t, 0))\<rparr>)"
    by (simp add: recalculateQ2_def split_beta)
  from assms show "shaped (t\<lparr>heap := fst (assignQ2 T (heap t, 0))\<rparr>) T"
    by (simp add: shaped_def)
qed

lemma shaped_q2_order:
  assumes "shaped t T" and "recalculateQ2 t = Some t'" and "isAnc T a b"
  shows "q2 (heap t' b) < q2 (heap t' a)"
proof -
  from assms(1,2) have t': "t' = t\<lparr>heap := fst (assignQ2 T (heap t, 0))\<rparr>"
    using shaped_recalculateQ2(1) by simp
  from assms(1) have d: "distinct (pre T)" by (simp add: shaped_def)
  have "sorted_wrt (<) (map (\<lambda>x. q2 (heap t' x)) (post T))"
    unfolding t' using assignQ2_sorted [OF d] by simp
  from post_order_anc [OF d this assms(3)] show ?thesis .
qed

subsection \<open>Inserting a leaf\<close>

lemma rroot_rinsert [simp]: "rroot (rinsert p i k T) = rroot T"
  by (cases T) simp

lemma rinsert_absent: "p \<notin> set (pre T) \<Longrightarrow> rinsert p i k T = T"
proof (induction T)
  case (RNode r ts)
  then have "map (rinsert p i k) ts = ts"
    by (intro map_idI) auto
  with RNode.prems show ?case by simp
qed

lemma concat_take_drop:
  "concat (map f (take i ts)) @ concat (map f (drop i ts)) = concat (map f ts)"
  by (metis append_take_drop_id concat_append map_append)

lemma rinsert_pre:
  "distinct (pre T) \<Longrightarrow> p \<in> set (pre T) \<Longrightarrow>
   \<exists>xs ys. pre T = xs @ ys \<and> pre (rinsert p i k T) = xs @ k # ys"
proof (induction T)
  case (RNode r ts)
  from RNode.prems(2,1) show ?case
  proof (cases rule: pre_member_cases)
    case 1
    have "pre (RNode r ts) = (r # concat (map pre (take i ts))) @ concat (map pre (drop i ts))"
      by (simp add: concat_take_drop)
    moreover have "pre (rinsert p i k (RNode r ts)) =
        (r # concat (map pre (take i ts))) @ k # concat (map pre (drop i ts))"
      using 1 by simp
    ultimately show ?thesis by blast
  next
    case (2 t)
    from 2(1) obtain us vs where ts: "ts = us @ t # vs"
      by (auto simp add: in_set_conv_decomp)
    have dt: "distinct (pre t)"
      using RNode.prems(1) 2(1) by (auto intro: distinct_concat_member)
    from RNode.prems(1) have "distinct (concat (map pre us) @ pre t @ concat (map pre vs))"
      by (simp add: ts)
    with 2(2) have "p \<notin> set (concat (map pre us))" "p \<notin> set (concat (map pre vs))"
      by auto
    then have other: "rinsert p i k t' = t'" if "t' \<in> set us \<or> t' \<in> set vs" for t'
      using that by (intro rinsert_absent) auto
    then have m: "map (rinsert p i k) ts = us @ rinsert p i k t # vs"
      unfolding ts by (simp add: map_idI)
    from RNode.IH [OF 2(1) dt 2(2)] obtain xs ys
      where xy: "pre t = xs @ ys" "pre (rinsert p i k t) = xs @ k # ys" by blast
    have "pre (RNode r ts) = (r # concat (map pre us) @ xs) @ (ys @ concat (map pre vs))"
      by (simp add: ts xy)
    moreover have "pre (rinsert p i k (RNode r ts)) =
        (r # concat (map pre us) @ xs) @ k # (ys @ concat (map pre vs))"
      using 2(3) by (simp add: m xy)
    ultimately show ?thesis by blast
  qed
qed

lemma rinsert_set:
  "distinct (pre T) \<Longrightarrow> p \<in> set (pre T) \<Longrightarrow> set (pre (rinsert p i k T)) = insert k (set (pre T))"
  using rinsert_pre [of T p i k] by auto

lemma rinsert_distinct:
  "distinct (pre T) \<Longrightarrow> p \<in> set (pre T) \<Longrightarrow> k \<notin> set (pre T) \<Longrightarrow>
   distinct (pre (rinsert p i k T))"
  using rinsert_pre [of T p i k] by auto

lemma rinsert_repr:
  assumes h1: "children (h' p) = take i (children (h p)) @ [k] @ drop i (children (h p))"
    and h2: "children (h' k) = []"
    and h3: "\<And>x. x \<noteq> p \<Longrightarrow> x \<noteq> k \<Longrightarrow> children (h' x) = children (h x)"
    and h4: "parent (h' k) = Some p"
    and h5: "\<And>x. x \<noteq> k \<Longrightarrow> parent (h' x) = parent (h x)"
  shows "repr h T \<Longrightarrow> distinct (pre T) \<Longrightarrow> k \<notin> set (pre T) \<Longrightarrow> repr h' (rinsert p i k T)"
proof (induction T)
  case (RNode r ts)
  have sub: "repr h t" "distinct (pre t)" "k \<notin> set (pre t)" "rroot t \<noteq> k"
    "parent (h (rroot t)) = Some r" if "t \<in> set ts" for t
    using that RNode.prems rroot_in_pre [of t] by (auto intro: distinct_concat_member)
  show ?case
  proof (cases "r = p")
    case True
    have same: "repr h' t" if "t \<in> set ts" for t
    proof -
      have "p \<notin> set (pre t)" using RNode.prems(2) that True by auto
      then have "rinsert p i k t = t" by (rule rinsert_absent)
      with RNode.IH [OF that sub(1-3) [OF that]] show ?thesis by simp
    qed
    have "children (h' p) = map rroot (take i ts @ [RNode k []] @ drop i ts)"
      using RNode.prems(1) True by (simp add: h1 take_map drop_map)
    moreover have "parent (h' (rroot t)) = Some p \<and> repr h' t"
      if "t \<in> set (take i ts @ [RNode k []] @ drop i ts)" for t
    proof (cases "t = RNode k []")
      case True
      then show ?thesis by (simp add: h2 h4)
    next
      case False
      with that have "t \<in> set ts" by (auto dest: in_set_takeD in_set_dropD)
      with same sub(4,5) [of t] h5 [of "rroot t"] True show ?thesis by simp
    qed
    ultimately show ?thesis using True by simp
  next
    case False
    from RNode.prems(3) have "r \<noteq> k" by simp
    with False RNode.prems(1) have "children (h' r) = map rroot (map (rinsert p i k) ts)"
      by (simp add: h3 comp_def)
    moreover have "parent (h' (rroot (rinsert p i k t))) = Some r \<and> repr h' (rinsert p i k t)"
      if "t \<in> set ts" for t
      using RNode.IH [OF that sub(1-3) [OF that]] sub(4,5) [OF that] h5 [of "rroot t"] by simp
    ultimately show ?thesis using False by simp
  qed
qed

subsection \<open>Field assignments\<close>

lemma setPrevSibling_fields [simp]:
  "prevSibling (setPrevSibling h n v x) = (if x = n then v else prevSibling (h x))"
  "nextSibling (setPrevSibling h n v x) = nextSibling (h x)"
  "children (setPrevSibling h n v x) = children (h x)"
  "parent (setPrevSibling h n v x) = parent (h x)"
  "q1 (setPrevSibling h n v x) = q1 (h x)"
  "q2 (setPrevSibling h n v x) = q2 (h x)"
  "nodeId (setPrevSibling h n v x) = nodeId (h x)"
  by (simp_all add: setPrevSibling_def)

lemma setNextSibling_fields [simp]:
  "nextSibling (setNextSibling h n v x) = (if x = n then v else nextSibling (h x))"
  "prevSibling (setNextSibling h n v x) = prevSibling (h x)"
  "children (setNextSibling h n v x) = children (h x)"
  "parent (setNextSibling h n v x) = parent (h x)"
  "q1 (setNextSibling h n v x) = q1 (h x)"
  "q2 (setNextSibling h n v x) = q2 (h x)"
  "nodeId (setNextSibling h n v x) = nodeId (h x)"
  by (simp_all add: setNextSibling_def)

lemma setChildren_fields [simp]:
  "children (setChildren h n v x) = (if x = n then v else children (h x))"
  "prevSibling (setChildren h n v x) = prevSibling (h x)"
  "nextSibling (setChildren h n v x) = nextSibling (h x)"
  "parent (setChildren h n v x) = parent (h x)"
  "q1 (setChildren h n v x) = q1 (h x)"
  "q2 (setChildren h n v x) = q2 (h x)"
  "nodeId (setChildren h n v x) = nodeId (h x)"
  by (simp_all add: setChildren_def)

subsection \<open>The effect of \<open>addNode\<close>\<close>

lemma indexOf_bounds: "- 1 \<le> indexOf xs x \<and> indexOf xs x < int (length xs)"
  by (induction xs) (auto simp add: Let_def)

lemma splice_insert:
  "0 \<le> i \<Longrightarrow> i \<le> int (length xs) \<Longrightarrow> splice xs i 0 [k] = take (nat i) xs @ [k] @ drop (nat i) xs"
  by (simp add: splice_def Let_def min_def)

lemmas addNode_unfold = addNode_def calculateChildIndices_def generateId_def Let_def split_beta

lemma addNode_nextId [simp]: "nextId (fst (addNode t p d after)) = nextId t + 1"
  by (simp add: addNode_unfold)

lemma addNode_snd [simp]: "snd (addNode t p d after) = nextId t"
  by (simp add: addNode_unfold)

lemma addNode_root [simp]: "root (fst (addNode t p d after)) = root t"
  by (simp add: addNode_unfold)

lemma addNode_xref [simp]: "xref (fst (addNode t p d after)) = xref t"
  by (simp add: addNode_unfold)

lemma addNode_q1Counter [simp]:
  "q1Counter (fst (addNode t p d after)) = q1Counter t + INITIAL_SPACING"
  by (simp add: addNode_unfold)

lemma addNode_parent:
  "parent (heap (fst (addNode t p d after)) x) =
     (if x = nextId t then Some p else parent (heap t x))"
  by (simp add: addNode_unfold split: option.split list.split)

lemma addNode_q1:
  "q1 (heap (fst (addNode t p d after)) x) =
     (if x = nextId t then q1Counter t + INITIAL_SPACING else q1 (heap t x))"
  by (simp add: addNode_unfold split: option.split list.split)

lemma addNode_nodeId:
  "nodeId (heap (fst (addNode t p d after)) x) =
     (if x = nextId t then nextId t else nodeId (heap t x))"
  by (simp add: addNode_unfold split: option.split list.split)

lemma addNode_children:
  "p \<noteq> nextId t \<Longrightarrow>
   children (heap (fst (addNode t p d after)) x) =
     (if x = p then
        (case after of
           None \<Rightarrow> nextId t # children (heap t p)
         | Some a \<Rightarrow> splice (children (heap t p)) (indexOf (children (heap t p)) a + 1) 0 [nextId t])
      else if x = nextId t then [] else children (heap t x))"
  by (simp add: addNode_unfold split: option.split list.split)

subsection \<open>Insertion keeps the tree shaped\<close>

lemma createDTree_shaped: "shaped (createDTree d) (RNode 1 [])"
  by (simp add: shaped_def createDTree_def)

lemma addNode_shaped:
  assumes "shaped t T" and "p \<in> set (pre T)"
  shows "shaped (fst (addNode t p d after))
           (rinsert p (case after of None \<Rightarrow> 0
                       | Some a \<Rightarrow> nat (indexOf (children (heap t p)) a + 1)) (nextId t) T)"
proof -
  let ?k = "nextId t"
  let ?i = "case after of None \<Rightarrow> 0 | Some a \<Rightarrow> nat (indexOf (children (heap t p)) a + 1)"
  let ?t' = "fst (addNode t p d after)"
  from assms have fresh: "?k \<notin> set (pre T)" and pk: "p \<noteq> ?k"
    by (auto simp add: shaped_def)
  from assms(1) have d: "distinct (pre T)" and r: "repr (heap t) T"
    and root: "rroot T = root t" "parent (heap t (root t)) = None"
    by (simp_all add: shaped_def)
  have c: "children (heap ?t' p) =
      take ?i (children (heap t p)) @ [?k] @ drop ?i (children (heap t p))"
  proof (cases after)
    case None
    then show ?thesis by (simp add: addNode_children [OF pk])
  next
    case (Some a)
    with indexOf_bounds [of "children (heap t p)" a] show ?thesis
      by (simp add: addNode_children [OF pk] splice_insert)
  qed
  have "repr (heap ?t') (rinsert p ?i ?k T)"
    using c by (rule rinsert_repr) (use pk in \<open>auto simp add: addNode_children [OF pk] addNode_parent r d fresh\<close>)
  moreover have "distinct (pre (rinsert p ?i ?k T))"
    using d assms(2) fresh by (rule rinsert_distinct)
  moreover have "root t \<noteq> ?k"
    using fresh root(1) rroot_in_pre [of T] by auto
  moreover have "\<forall>x \<in> set (pre (rinsert p ?i ?k T)). x < ?k + 1 \<and> nodeId (heap ?t' x) = x"
    using assms by (auto simp add: rinsert_set [OF d assms(2)] shaped_def addNode_nodeId)
  ultimately show ?thesis
    using root by (simp add: shaped_def addNode_parent)
qed

lemma addNode_shaped_treeNodes:
  assumes "shaped t T" and "p \<in> set (pre T)"
  shows "treeNodes (fst (addNode t p d after)) = insert (nextId t) (treeNodes t)"
proof -
  from assms(1) have d: "distinct (pre T)" by (simp add: shaped_def)
  from addNode_shaped [OF assms, of d after] shaped_treeNodes [OF assms(1)] show ?thesis
    by (simp add: shaped_treeNodes rinsert_set [OF d assms(2)])
qed

lemma index_shaped:
  "shaped t T \<Longrightarrow> shaped (t\<lparr>xref := x\<rparr>) T"
  by (simp add: shaped_def)

lemma index_treeNodes [simp]: "treeNodes (t\<lparr>xref := x\<rparr>) = treeNodes t"
  by (simp add: treeNodes_def)

lemma createDTree_treeNodes: "treeNodes (createDTree d) = {1}"
  using shaped_treeNodes [OF createDTree_shaped, of d] by simp

subsection \<open>Appending in complete-subtree order\<close>

lemma lastSpine_last: "lastSpine ts = (if ts = [] then [] else spine (last ts))"
  by (induction ts rule: induct_list012) simp_all

lemma spine_subset_pre: "set (spine T) \<subseteq> set (pre T)"
proof (induction T)
  case (RNode r ts)
  show ?case
  proof (cases "ts = []")
    case True
    then show ?thesis by simp
  next
    case False
    then have "last ts \<in> set ts" by simp
    with RNode.IH [of "last ts"] False show ?thesis
      by (auto simp add: lastSpine_last)
  qed
qed

lemma rightSpine_spine:
  assumes "rightSpine h r p"
  shows "repr h T \<Longrightarrow> rroot T = r \<Longrightarrow> p \<in> set (spine T)"
  using assms
proof (induction rule: rightSpine.induct)
  case (rightSpine_root h r)
  then show ?case by (cases T) simp
next
  case (rightSpine_last h r q)
  have step: "repr h U \<Longrightarrow> q \<in> set (spine U) \<Longrightarrow> last (children (h q)) \<in> set (spine U)" for U
  proof (induction U)
    case (RNode u ts)
    show ?case
    proof (cases "q = u")
      case True
      with RNode.prems(1) rightSpine_last.hyps(2) have ne: "ts \<noteq> []" by auto
      with RNode.prems(1) True have "last (children (h q)) = rroot (last ts)"
        by (simp add: last_map)
      moreover have "rroot (last ts) \<in> set (spine (last ts))" by (cases "last ts") simp
      ultimately show ?thesis using ne by (simp add: lastSpine_last)
    next
      case False
      with RNode.prems(2) have ne: "ts \<noteq> []" and q: "q \<in> set (spine (last ts))"
        by (auto simp add: lastSpine_last split: if_splits)
      from ne have l: "last ts \<in> set ts" by simp
      with RNode.prems(1) have "repr h (last ts)" by simp
      from RNode.IH [OF l this q] ne show ?thesis by (simp add: lastSpine_last)
    qed
  qed
  from rightSpine_last.IH [OF rightSpine_last.prems] step [OF rightSpine_last.prems(1)]
  show ?case by simp
qed

lemma repr_children_distinct:
  "repr h T \<Longrightarrow> distinct (pre T) \<Longrightarrow> p \<in> set (pre T) \<Longrightarrow> distinct (children (h p))"
proof (induction T)
  case (RNode r ts)
  from RNode.prems(3,2) show ?case
  proof (cases rule: pre_member_cases)
    case 1
    from RNode.prems(2) have "distinct (concat (map pre ts))" by simp
    then have "distinct (map rroot ts)"
    proof (induction ts)
      case Nil
      then show ?case by simp
    next
      case (Cons t ts)
      have "rroot t \<notin> rroot ` set ts"
      proof
        assume "rroot t \<in> rroot ` set ts"
        then obtain t' where "t' \<in> set ts" "rroot t' = rroot t" by auto
        with rroot_in_pre [of t'] rroot_in_pre [of t] Cons.prems show False by auto
      qed
      with Cons show ?case by simp
    qed
    with 1 RNode.prems(1) show ?thesis by simp
  next
    case (2 t)
    with RNode.prems RNode.IH [of t] show ?thesis
      by (auto intro: distinct_concat_member)
  qed
qed

lemma indexOf_last: "xs \<noteq> [] \<Longrightarrow> distinct xs \<Longrightarrow> indexOf xs (last xs) = int (length xs) - 1"
proof (induction xs)
  case Nil
  then show ?case by simp
next
  case (Cons x xs)
  show ?case
  proof (cases "xs = []")
    case True
    then show ?thesis by simp
  next
    case False
    with Cons have "indexOf xs (last xs) = int (length xs) - 1" and "x \<noteq> last xs"
      by auto
    with False show ?thesis by (simp add: Let_def)
  qed
qed

lemma rinsert_spine_pre:
  "repr h T \<Longrightarrow> distinct (pre T) \<Longrightarrow> p \<in> set (spine T) \<Longrightarrow>
   pre (rinsert p (length (children (h p))) k T) = pre T @ [k]"
proof (induction T)
  case (RNode r ts)
  show ?case
  proof (cases "r = p")
    case True
    with RNode.prems(1) show ?thesis by simp
  next
    case False
    with RNode.prems(3) have ne: "ts \<noteq> []" and p: "p \<in> set (spine (last ts))"
      by (auto simp add: lastSpine_last split: if_splits)
    from ne have l: "last ts \<in> set ts" and ts: "ts = butlast ts @ [last ts]" by simp_all
    from p spine_subset_pre have pl: "p \<in> set (pre (last ts))" by blast
    from RNode.prems(2) have "distinct (concat (map pre (butlast ts @ [last ts])))"
      using ts by simp
    with pl have "p \<notin> set (concat (map pre (butlast ts)))" by auto
    then have "map (rinsert p (length (children (h p))) k) (butlast ts) = butlast ts"
      by (intro map_idI rinsert_absent) auto
    then have m: "map (rinsert p (length (children (h p))) k) ts =
        butlast ts @ [rinsert p (length (children (h p))) k (last ts)]"
      by (subst ts) simp
    have "repr h (last ts)" "distinct (pre (last ts))"
      using RNode.prems l by (auto intro: distinct_concat_member)
    from RNode.IH [OF l this p]
    have "pre (rinsert p (length (children (h p))) k (last ts)) = pre (last ts) @ [k]" .
    moreover have "concat (map pre ts) = concat (map pre (butlast ts)) @ pre (last ts)"
      by (subst ts) simp
    ultimately show ?thesis using False by (simp add: m)
  qed
qed

lemma appendChild_index:
  assumes "distinct (children (heap t p))"
  shows "appendChild t p d = addNode t p d (if children (heap t p) = [] then None else Some (last (children (heap t p)))) \<and>
    (case (if children (heap t p) = [] then None else Some (last (children (heap t p)))) of
       None \<Rightarrow> 0 | Some a \<Rightarrow> nat (indexOf (children (heap t p)) a + 1)) = length (children (heap t p))"
  using assms by (simp add: appendChild_def Let_def indexOf_last)

lemma appendChild_preOrdered:
  assumes "preOrdered t T" and "rightSpine (heap t) (root t) p"
  shows "\<exists>T'. preOrdered (fst (appendChild t p d)) T'"
proof -
  from assms(1) have sh: "shaped t T"
    and so: "sorted_wrt (\<lambda>x y. q1 (heap t x) < q1 (heap t y)) (pre T)"
    and le: "\<And>x. x \<in> set (pre T) \<Longrightarrow> q1 (heap t x) \<le> q1Counter t"
    by (auto simp add: preOrdered_def)
  from sh have r: "repr (heap t) T" and dT: "distinct (pre T)" and rt: "rroot T = root t"
    and fresh: "nextId t \<notin> set (pre T)"
    by (auto simp add: shaped_def)
  from rightSpine_spine [OF assms(2) r rt] have sp: "p \<in> set (spine T)" .
  with spine_subset_pre have p: "p \<in> set (pre T)" by blast
  have dc: "distinct (children (heap t p))" by (rule repr_children_distinct [OF r dT p])
  let ?after = "if children (heap t p) = [] then None else Some (last (children (heap t p)))"
  let ?t' = "fst (addNode t p d ?after)"
  let ?T' = "rinsert p (length (children (heap t p))) (nextId t) T"
  from appendChild_index [OF dc, of d] addNode_shaped [OF sh p, of d ?after]
  have eq: "fst (appendChild t p d) = ?t'" and sh': "shaped ?t' ?T'"
    by simp_all
  have pre': "pre ?T' = pre T @ [nextId t]" by (rule rinsert_spine_pre [OF r dT sp])
  have q1': "q1 (heap ?t' x) = q1 (heap t x)" if "x \<in> set (pre T)" for x
    using that fresh by (auto simp add: addNode_q1)
  have "sorted_wrt (\<lambda>x y. q1 (heap ?t' x) < q1 (heap ?t' y)) (pre T)"
    using so by (rule sorted_wrt_mono_rel [rotated]) (simp add: q1')
  moreover have "q1 (heap ?t' x) < q1 (heap ?t' (nextId t))" if "x \<in> set (pre T)" for x
    using le [OF that] q1' [OF that] INITIAL_SPACING_pos by (simp add: addNode_q1)
  moreover have "q1 (heap ?t' x) \<le> q1Counter ?t'" if "x \<in> set (pre ?T')" for x
  proof (cases "x = nextId t")
    case True
    then show ?thesis by (simp add: addNode_q1)
  next
    case False
    with that have x: "x \<in> set (pre T)" by (simp add: pre')
    from le [OF x] q1' [OF x] INITIAL_SPACING_pos show ?thesis by simp
  qed
  ultimately have "preOrdered ?t' ?T'"
    using sh' by (auto simp add: preOrdered_def pre' sorted_wrt_append)
  with eq show ?thesis by auto
qed

lemma appendChild_addNode:
  "appendChild t p d =
     addNode t p d (if children (heap t p) = [] then None else Some (last (children (heap t p))))"
  by (simp add: appendChild_def Let_def)

lemma appendChild_nextId [simp]: "nextId (fst (appendChild t p d)) = nextId t + 1"
  by (simp add: appendChild_addNode)

lemma appendChild_root [simp]: "root (fst (appendChild t p d)) = root t"
  by (simp add: appendChild_addNode)

lemma createDTree_fields [simp]:
  "nextId (createDTree d) = 2" "root (createDTree d) = 1"
  "children (heap (createDTree d) x) = []"
  by (simp_all add: createDTree_def blankNode_def)

lemma appendChild_children:
  assumes "p \<noteq> nextId t" and "distinct (children (heap t p))"
  shows "children (heap (fst (appendChild t p d)) x) =
     (if x = p then children (heap t p) @ [nextId t]
      else if x = nextId t then [] else children (heap t x))"
proof (cases "children (heap t p) = []")
  case True
  then show ?thesis by (simp add: appendChild_addNode addNode_children [OF assms(1)])
next
  case False
  with assms(2) indexOf_last [of "children (heap t p)"] show ?thesis
    by (simp add: appendChild_addNode addNode_children [OF assms(1)] splice_insert)
qed

subsection \<open>Sibling lists\<close>

lemma linked_cong:
  "(\<And>x. x \<in> set cs \<Longrightarrow> prevSibling (h' x) = prevSibling (h x) \<and> nextSibling (h' x) = nextSibling (h x))
   \<Longrightarrow> linked h' pv cs nx = linked h pv cs nx"
  by (induction cs arbitrary: pv) auto

lemma linked_append:
  "linked h pv (xs @ ys) nx =
     (linked h pv xs (case ys of [] \<Rightarrow> nx | y # _ \<Rightarrow> Some y) \<and>
      linked h (if xs = [] then pv else Some (last xs)) ys nx)"
proof (induction xs arbitrary: pv)
  case Nil
  then show ?case by simp
next
  case (Cons x xs)
  show ?case
    using Cons.IH [of "Some x"] by (cases xs; cases ys) auto
qed

lemma addNode_prevSibling_None:
  "p \<noteq> nextId t \<Longrightarrow> (children (heap t p) \<noteq> [] \<Longrightarrow> hd (children (heap t p)) \<noteq> nextId t) \<Longrightarrow>
   prevSibling (heap (fst (addNode t p d None)) x) =
     (if x = nextId t then None
      else if children (heap t p) \<noteq> [] \<and> x = hd (children (heap t p)) then Some (nextId t)
      else prevSibling (heap t x))"
  by (cases "children (heap t p)") (auto simp add: addNode_unfold)

lemma addNode_nextSibling_None:
  "p \<noteq> nextId t \<Longrightarrow> (children (heap t p) \<noteq> [] \<Longrightarrow> hd (children (heap t p)) \<noteq> nextId t) \<Longrightarrow>
   nextSibling (heap (fst (addNode t p d None)) x) =
     (if x = nextId t then (if children (heap t p) = [] then None else Some (hd (children (heap t p))))
      else nextSibling (heap t x))"
  by (cases "children (heap t p)") (auto simp add: addNode_unfold)

lemma addNode_prevSibling_Some:
  "a \<noteq> nextId t \<Longrightarrow> nextSibling (heap t a) \<noteq> Some (nextId t) \<Longrightarrow>
   prevSibling (heap (fst (addNode t p d (Some a))) x) =
     (if x = nextId t then Some a
      else if nextSibling (heap t a) = Some x then Some (nextId t)
      else prevSibling (heap t x))"
  by (cases "nextSibling (heap t a)") (auto simp add: addNode_unfold)

lemma addNode_nextSibling_Some:
  "a \<noteq> nextId t \<Longrightarrow>
   nextSibling (heap (fst (addNode t p d (Some a))) x) =
     (if x = a then Some (nextId t)
      else if x = nextId t then nextSibling (heap t a)
      else nextSibling (heap t x))"
  by (cases "nextSibling (heap t a)") (auto simp add: addNode_unfold)

lemma linked_insert_front:
  assumes l: "linked h None cs None" and d: "distinct cs" and k: "k \<notin> set cs"
    and pv: "\<And>x. prevSibling (h' x) =
      (if x = k then None else if cs \<noteq> [] \<and> x = hd cs then Some k else prevSibling (h x))"
    and nx: "\<And>x. nextSibling (h' x) =
      (if x = k then (if cs = [] then None else Some (hd cs)) else nextSibling (h x))"
  shows "linked h' None (k # cs) None"
proof (cases cs)
  case Nil
  then show ?thesis by (simp add: pv nx)
next
  case (Cons f cs2)
  have "linked h' (Some f) cs2 None = linked h (Some f) cs2 None"
    by (rule linked_cong) (use Cons d k in \<open>auto simp add: pv nx\<close>)
  with l Cons k show ?thesis by (auto simp add: pv nx)
qed

lemma linked_insert_after:
  assumes l: "linked h None (xs @ a # ys) None" and d: "distinct (xs @ a # ys)"
    and k: "k \<notin> set (xs @ a # ys)"
    and pv: "\<And>x. prevSibling (h' x) =
      (if x = k then Some a else if nextSibling (h a) = Some x then Some k
       else prevSibling (h x))"
    and nx: "\<And>x. nextSibling (h' x) =
      (if x = a then Some k else if x = k then nextSibling (h a) else nextSibling (h x))"
  shows "linked h' None (xs @ a # k # ys) None"
proof -
  from l have lx: "linked h None xs (Some a)"
    and la: "prevSibling (h a) = (if xs = [] then None else Some (last xs))"
    and na: "nextSibling (h a) = (case ys of [] \<Rightarrow> None | y # _ \<Rightarrow> Some y)"
    and ly: "linked h (Some a) ys None"
    by (simp_all add: linked_append)
  have nay: "nextSibling (h a) = Some x \<longleftrightarrow> (ys \<noteq> [] \<and> x = hd ys)" for x
    using na by (cases ys) auto
  have "linked h' None xs (Some a) = linked h None xs (Some a)"
  proof (rule linked_cong)
    fix x assume "x \<in> set xs"
    with d k have "x \<noteq> k" "x \<noteq> a" "x \<notin> set ys" by auto
    then show "prevSibling (h' x) = prevSibling (h x) \<and> nextSibling (h' x) = nextSibling (h x)"
      by (auto simp add: pv nx nay)
  qed
  with lx have 1: "linked h' None xs (Some a)" by simp
  have 2: "prevSibling (h' a) = (if xs = [] then None else Some (last xs))"
    using d k la by (auto simp add: pv nay)
  have 3: "linked h' (Some k) ys None"
  proof (cases ys)
    case Nil
    then show ?thesis by simp
  next
    case (Cons y ys2)
    have "linked h' (Some y) ys2 None = linked h (Some y) ys2 None"
    proof (rule linked_cong)
      fix x assume "x \<in> set ys2"
      with d k Cons have "x \<noteq> k" "x \<noteq> a" "x \<noteq> y" by auto
      then show "prevSibling (h' x) = prevSibling (h x) \<and> nextSibling (h' x) = nextSibling (h x)"
        using Cons by (auto simp add: pv nx nay)
    qed
    moreover from d k Cons have "y \<noteq> a" "y \<noteq> k" by auto
    ultimately show ?thesis using ly Cons by (auto simp add: pv nx nay)
  qed
  have 4: "nextSibling (h' k) = (case ys of [] \<Rightarrow> None | y # _ \<Rightarrow> Some y)"
    using k na by (auto simp add: nx)
  from k have "k \<noteq> a" by auto
  with 1 2 3 4 show ?thesis
    by (simp add: linked_append pv nx)
qed

lemma linked_remove:
  assumes l: "linked h None (xs @ n # ys) None" and d: "distinct (xs @ n # ys)"
    and pv: "\<And>x. prevSibling (h' x) =
      (if nextSibling (h n) = Some x then prevSibling (h n) else prevSibling (h x))"
    and nx: "\<And>x. nextSibling (h' x) =
      (if prevSibling (h n) = Some x then nextSibling (h n) else nextSibling (h x))"
  shows "linked h' None (xs @ ys) None"
proof -
  from l have lx: "linked h None xs (Some n)"
    and pn: "prevSibling (h n) = (if xs = [] then None else Some (last xs))"
    and nn: "nextSibling (h n) = (case ys of [] \<Rightarrow> None | y # _ \<Rightarrow> Some y)"
    and ly: "linked h (Some n) ys None"
    by (simp_all add: linked_append)
  have pnx: "prevSibling (h n) = Some x \<longleftrightarrow> (xs \<noteq> [] \<and> x = last xs)" for x
    using pn by auto
  have nny: "nextSibling (h n) = Some x \<longleftrightarrow> (ys \<noteq> [] \<and> x = hd ys)" for x
    using nn by (cases ys) auto
  have 1: "linked h' None xs (case ys of [] \<Rightarrow> None | y # _ \<Rightarrow> Some y)"
  proof (cases "xs = []")
    case True
    then show ?thesis by simp
  next
    case False
    then obtain xs2 z where xs: "xs = xs2 @ [z]" by (metis rev_exhaust)
    from lx have lx2: "linked h None xs2 (Some z)"
      and pz: "prevSibling (h z) = (if xs2 = [] then None else Some (last xs2))"
      by (simp_all add: xs linked_append)
    have "linked h' None xs2 (Some z) = linked h None xs2 (Some z)"
    proof (rule linked_cong)
      fix x assume "x \<in> set xs2"
      with d xs have "x \<noteq> z" "x \<notin> set ys" by auto
      then show "prevSibling (h' x) = prevSibling (h x) \<and> nextSibling (h' x) = nextSibling (h x)"
        by (auto simp add: pv nx pnx nny xs)
    qed
    moreover from d xs have "z \<notin> set ys" by auto
    ultimately show ?thesis
      using lx2 pz nn by (auto simp add: xs linked_append pv nx pnx nny)
  qed
  have 2: "linked h' (if xs = [] then None else Some (last xs)) ys None"
  proof (cases ys)
    case Nil
    then show ?thesis by simp
  next
    case (Cons y ys2)
    have "linked h' (Some y) ys2 None = linked h (Some y) ys2 None"
    proof (rule linked_cong)
      fix x assume "x \<in> set ys2"
      with d Cons have "x \<noteq> y" "x \<notin> set xs" by auto
      then show "prevSibling (h' x) = prevSibling (h x) \<and> nextSibling (h' x) = nextSibling (h x)"
        using Cons by (auto simp add: pv nx pnx nny)
    qed
    moreover from d Cons have "y \<notin> set xs" by auto
    ultimately show ?thesis
      using ly Cons pn by (auto simp add: pv nx pnx nny)
  qed
  from 1 2 show ?thesis by (simp add: linked_append)
qed

lemma repr_child:
  "repr h T \<Longrightarrow> r \<in> set (pre T) \<Longrightarrow> x \<in> set (children (h r)) \<Longrightarrow>
   parent (h x) = Some r \<and> x \<in> set (pre T)"
proof (induction T)
  case (RNode u ts)
  show ?case
  proof (cases "r = u")
    case True
    with RNode.prems obtain t where "t \<in> set ts" "x = rroot t" by auto
    with RNode.prems(1) True rroot_in_pre [of t] show ?thesis by auto
  next
    case False
    with RNode.prems(2) obtain t where t: "t \<in> set ts" "r \<in> set (pre t)" by auto
    with RNode.prems(1) have "repr h t" by simp
    from RNode.IH [OF t(1) this t(2) RNode.prems(3)] t(1) show ?thesis by auto
  qed
qed

lemma indexOf_first: "a \<notin> set xs \<Longrightarrow> indexOf (xs @ a # ys) a = int (length xs)"
  by (induction xs) (auto simp add: Let_def)

lemma splice_remove: "splice (xs @ n # ys) (int (length xs)) 1 [] = xs @ ys"
  by (simp add: splice_def Let_def)

lemma addNode_wellLinked:
  assumes sh: "shaped t T" and wl: "wellLinked t T" and p: "p \<in> set (pre T)"
    and af: "after = None \<or> (\<exists>a. after = Some a \<and> a \<in> set (children (heap t p)))"
  shows "wellLinked (fst (addNode t p d after))
           (rinsert p (case after of None \<Rightarrow> 0
                       | Some a \<Rightarrow> nat (indexOf (children (heap t p)) a + 1)) (nextId t) T)"
proof -
  let ?k = "nextId t"
  let ?h = "heap t"
  let ?h' = "heap (fst (addNode t p d after))"
  let ?cs = "children (?h p)"
  let ?i = "case after of None \<Rightarrow> 0 | Some a \<Rightarrow> nat (indexOf ?cs a + 1)"
  from sh p have fresh: "?k \<notin> set (pre T)" and pk: "p \<noteq> ?k"
    and r: "repr ?h T" and dT: "distinct (pre T)"
    by (auto simp add: shaped_def)
  have dcs: "distinct ?cs" by (rule repr_children_distinct [OF r dT p])
  have cs_in: "x \<in> set (pre T) \<and> parent (?h x) = Some p" if "x \<in> set ?cs" for x
    using repr_child [OF r p that] by simp
  then have kcs: "?k \<notin> set ?cs" using fresh by blast
  from wl p have lcs: "linked ?h None ?cs None"
    by (simp add: wellLinked_def siblingsLinked_def)
  have p_linked: "linked ?h' None (children (?h' p)) None"
    and frame: "\<And>x. x \<noteq> ?k \<Longrightarrow> x \<notin> set ?cs \<Longrightarrow>
      prevSibling (?h' x) = prevSibling (?h x) \<and> nextSibling (?h' x) = nextSibling (?h x)"
  proof -
    show "linked ?h' None (children (?h' p)) None"
    proof (cases after)
      case None
      have hd: "?cs \<noteq> [] \<Longrightarrow> hd ?cs \<noteq> ?k" using kcs by (cases ?cs) auto
      have "linked ?h' None (?k # ?cs) None"
        using lcs dcs kcs unfolding None
        by (rule linked_insert_front)
          (simp_all add: addNode_prevSibling_None [OF pk hd] addNode_nextSibling_None [OF pk hd])
      then show ?thesis by (simp add: None addNode_children [OF pk])
    next
      case (Some a)
      with af have a: "a \<in> set ?cs" by simp
      then obtain xs ys where cs: "?cs = xs @ a # ys" and axs: "a \<notin> set xs"
        by (auto dest: split_list_first)
      from a kcs have ak: "a \<noteq> ?k" by auto
      from lcs have na: "nextSibling (?h a) = (case ys of [] \<Rightarrow> None | y # _ \<Rightarrow> Some y)"
        by (simp add: cs linked_append)
      have nak: "nextSibling (?h a) \<noteq> Some ?k"
        using na kcs cs by (cases ys) auto
      have "linked ?h' None (xs @ a # ?k # ys) None"
        using lcs dcs kcs unfolding Some cs
        by (rule linked_insert_after)
          (simp_all add: addNode_prevSibling_Some [OF ak nak] addNode_nextSibling_Some [OF ak])
      moreover have "nat (int (length xs) + 1) = Suc (length xs)" by simp
      then have "children (?h' p) = xs @ a # ?k # ys"
        by (simp add: Some addNode_children [OF pk] cs indexOf_first [OF axs] splice_insert)
      ultimately show ?thesis by simp
    qed
  next
    fix x assume x: "x \<noteq> ?k" "x \<notin> set ?cs"
    show "prevSibling (?h' x) = prevSibling (?h x) \<and> nextSibling (?h' x) = nextSibling (?h x)"
    proof (cases after)
      case None
      have hd: "?cs \<noteq> [] \<Longrightarrow> hd ?cs \<noteq> ?k" using kcs by (cases ?cs) auto
      from x have "?cs \<noteq> [] \<Longrightarrow> x \<noteq> hd ?cs" by (cases ?cs) auto
      with x show ?thesis
        by (auto simp add: None addNode_prevSibling_None [OF pk hd]
            addNode_nextSibling_None [OF pk hd])
    next
      case (Some a)
      with af have a: "a \<in> set ?cs" by simp
      then obtain xs ys where cs: "?cs = xs @ a # ys" and axs: "a \<notin> set xs"
        by (auto dest: split_list_first)
      from a kcs have ak: "a \<noteq> ?k" by auto
      from lcs have na: "nextSibling (?h a) = (case ys of [] \<Rightarrow> None | y # _ \<Rightarrow> Some y)"
        by (simp add: cs linked_append)
      have nak: "nextSibling (?h a) \<noteq> Some ?k"
        using na kcs cs by (cases ys) auto
      have nax: "nextSibling (?h a) \<noteq> Some x"
        using na x(2) cs by (cases ys) auto
      from x a have "x \<noteq> a" by auto
      with x nax show ?thesis
        by (simp add: Some addNode_prevSibling_Some [OF ak nak] addNode_nextSibling_Some [OF ak])
    qed
  qed
  have "siblingsLinked ?h' (children (?h' r))"
    if "r \<in> set (pre (rinsert p ?i ?k T))" for r
  proof -
    from that have rr: "r = ?k \<or> r \<in> set (pre T)"
      by (simp add: rinsert_set [OF dT p])
    show ?thesis
    proof (cases "r = ?k")
      case True
      with pk show ?thesis by (auto simp add: siblingsLinked_def addNode_children [OF pk])
    next
      case rk: False
      with rr have rT: "r \<in> set (pre T)" by simp
      show ?thesis
      proof (cases "r = p")
        case True
        with p_linked show ?thesis by (simp add: siblingsLinked_def)
      next
        case False
        with rk have c: "children (?h' r) = children (?h r)"
          by (simp add: addNode_children [OF pk])
        have "linked ?h' None (children (?h r)) None = linked ?h None (children (?h r)) None"
        proof (rule linked_cong)
          fix x assume xr: "x \<in> set (children (?h r))"
          from repr_child [OF r rT xr] have xp: "parent (?h x) = Some r" "x \<in> set (pre T)"
            by simp_all
          with fresh have "x \<noteq> ?k" by auto
          moreover have "x \<notin> set ?cs" using cs_in [of x] xp(1) False by auto
          ultimately show "prevSibling (?h' x) = prevSibling (?h x) \<and>
              nextSibling (?h' x) = nextSibling (?h x)"
            by (rule frame)
        qed
        with wl rT c show ?thesis by (simp add: wellLinked_def siblingsLinked_def)
      qed
    qed
  qed
  then show ?thesis by (simp add: wellLinked_def)
qed

subsection \<open>The effect of \<open>removeNode\<close>\<close>

lemma repr_parent:
  "repr h T \<Longrightarrow> n \<in> set (pre T) \<Longrightarrow> n \<noteq> rroot T \<Longrightarrow>
   \<exists>p \<in> set (pre T). parent (h n) = Some p \<and> n \<in> set (children (h p))"
proof (induction T)
  case (RNode r ts)
  from RNode.prems(2,3) obtain t where t: "t \<in> set ts" "n \<in> set (pre t)" by auto
  show ?case
  proof (cases "n = rroot t")
    case True
    with RNode.prems(1) t(1) show ?thesis by auto
  next
    case False
    from RNode.prems(1) t(1) have "repr h t" by simp
    from RNode.IH [OF t(1) this t(2) False] t(1) show ?thesis by auto
  qed
qed

lemma purge_heap [simp]: "heap (purge sub t) = heap t"
  unfolding purge_def by (induction sub arbitrary: t) simp_all

lemma purge_root [simp]: "root (purge sub t) = root t"
  unfolding purge_def by (induction sub arbitrary: t) simp_all

lemma purge_nextId [simp]: "nextId (purge sub t) = nextId t"
  unfolding purge_def by (induction sub arbitrary: t) simp_all

lemma purge_q1Counter [simp]: "q1Counter (purge sub t) = q1Counter t"
  unfolding purge_def by (induction sub arbitrary: t) simp_all

lemma xrefGet_xrefRemoveNode:
  "xrefGet (xrefRemoveNode index n) tok = removeAll n (xrefGet index tok)"
  by (simp add: xrefGet_def xrefRemoveNode_def split: option.splits)

lemma purge_Nil: "purge [] t = t"
  by (simp add: purge_def)

lemma purge_Cons:
  "purge (n # sub) t =
     purge sub (t\<lparr>xref := xrefRemoveNode (xref t) n,
                   nodeMap := (nodeMap t)(nodeId (heap t n) := None)\<rparr>)"
  by (simp add: purge_def)

lemma purge_xref: "set (xrefGet (xref (purge sub t)) tok) = set (xrefGet (xref t) tok) - set sub"
proof (induction sub arbitrary: t)
  case Nil
  then show ?case by (simp add: purge_Nil)
next
  case (Cons n sub)
  have "set (xrefGet (xref (purge (n # sub) t)) tok) =
      set (xrefGet (xrefRemoveNode (xref t) n) tok) - set sub"
    unfolding purge_Cons Cons.IH by simp
  then show ?case by (auto simp add: xrefGet_xrefRemoveNode)
qed

lemma purge_xref_filter:
  "xref (purge sub t) tok = map_option (filter (\<lambda>x. x \<notin> set sub)) (xref t tok)"
proof (induction sub arbitrary: t)
  case Nil
  then show ?case by (cases "xref t tok") (simp_all add: purge_Nil)
next
  case (Cons n sub)
  have "filter (\<lambda>x. x \<notin> set sub) (removeAll n xs) = filter (\<lambda>x. x \<notin> set (n # sub)) xs"
    for xs :: "ref list"
    by (induction xs) auto
  then show ?case
    unfolding purge_Cons Cons.IH by (cases "xref t tok") (simp_all add: xrefRemoveNode_def)
qed

lemma removeNode_root:
  "parent (heap t n) = None \<Longrightarrow> removeNode t n = Some (Inl RootRemovalForbidden, t)"
  by (simp add: removeNode_def isRoot_def)

lemma removeNode_Some:
  assumes "parent (heap t n) = Some p" and "getSubtree (heap t) n = Some sub"
  shows "\<exists>t'. removeNode t n = Some (Inr (), t') \<and>
    xref t' = xref (purge sub t) \<and> root t' = root t \<and> nextId t' = nextId t \<and>
    q1Counter t' = q1Counter t \<and>
    (\<forall>x. parent (heap t' x) = parent (heap t x)) \<and>
    (\<forall>x. nodeId (heap t' x) = nodeId (heap t x)) \<and>
    (\<forall>x. q1 (heap t' x) = q1 (heap t x)) \<and>
    (\<forall>x. q2 (heap t' x) = q2 (heap t x)) \<and>
    (\<forall>x. children (heap t' x) =
       (if x = p then splice (children (heap t p)) (indexOf (children (heap t p)) n) 1 []
        else children (heap t x))) \<and>
    (prevSibling (heap t n) \<noteq> Some n \<longrightarrow>
      (\<forall>x. nextSibling (heap t' x) =
         (if prevSibling (heap t n) = Some x then nextSibling (heap t n)
          else nextSibling (heap t x))) \<and>
      (\<forall>x. prevSibling (heap t' x) =
         (if nextSibling (heap t n) = Some x then prevSibling (heap t n)
          else prevSibling (heap t x))))"
  using assms
  by (cases "prevSibling (heap t n)"; cases "nextSibling (heap t n)")
    (auto simp add: removeNode_def isRoot_def Let_def purge_def [symmetric])

subsection \<open>Removing a subtree\<close>

lemma rroot_rremove [simp]: "rroot (rremove n T) = rroot T"
  by (cases T) simp

lemma rremove_pre_subset: "set (pre (rremove n T)) \<subseteq> set (pre T)"
proof (induction T)
  case (RNode r ts)
  then show ?case by fastforce
qed

lemma rremove_distinct: "distinct (pre T) \<Longrightarrow> distinct (pre (rremove n T))"
proof (induction T)
  case (RNode r ts)
  from RNode.prems have r: "r \<notin> set (concat (map pre ts))"
    and d: "distinct (concat (map pre ts))" by auto
  have "distinct (concat (map pre (map (rremove n) (filter (\<lambda>t. rroot t \<noteq> n) ts))))"
    using d RNode.IH
  proof (induction ts)
    case Nil
    then show ?case by simp
  next
    case (Cons t ts)
    from Cons.prems(1) have dt: "distinct (pre t)" and dts: "distinct (concat (map pre ts))"
      and disj: "set (pre t) \<inter> set (concat (map pre ts)) = {}" by auto
    have rest: "distinct (concat (map pre (map (rremove n) (filter (\<lambda>t. rroot t \<noteq> n) ts))))"
      by (rule Cons.IH [OF dts]) (simp add: Cons.prems(2))
    have sub: "set (concat (map pre (map (rremove n) (filter (\<lambda>t. rroot t \<noteq> n) ts))))
        \<subseteq> set (concat (map pre ts))"
      using rremove_pre_subset by fastforce
    have "distinct (pre (rremove n t))" by (rule Cons.prems(2)) (simp_all add: dt)
    moreover have "set (pre (rremove n t)) \<inter>
        set (concat (map pre (map (rremove n) (filter (\<lambda>t. rroot t \<noteq> n) ts)))) = {}"
      using disj sub rremove_pre_subset [of n t] by blast
    ultimately show ?case using rest by simp
  qed
  moreover have "r \<notin> set (concat (map pre (map (rremove n) (filter (\<lambda>t. rroot t \<noteq> n) ts))))"
    using r rremove_pre_subset by fastforce
  ultimately show ?case by simp
qed

lemma rremove_absent: "n \<noteq> rroot T \<Longrightarrow> n \<notin> set (pre (rremove n T))"
proof (induction T)
  case (RNode r ts)
  have "n \<notin> set (pre (rremove n t))" if "t \<in> set ts" "rroot t \<noteq> n" for t
    using RNode.IH [OF that(1)] that(2) by auto
  with RNode.prems show ?case by auto
qed

lemma rremove_keeps:
  "x \<in> set (pre T) \<Longrightarrow> x \<noteq> n \<Longrightarrow> \<not> isAnc T n x \<Longrightarrow> x \<in> set (pre (rremove n T))"
proof (induction T)
  case (RNode r ts)
  show ?case
  proof (cases "x = r")
    case True
    then show ?thesis by simp
  next
    case False
    with RNode.prems(1) obtain t where t: "t \<in> set ts" "x \<in> set (pre t)" by auto
    from RNode.prems(3) t have na: "\<not> isAnc t n x" and nr: "n \<noteq> r" by auto
    have "rroot t \<noteq> n"
    proof
      assume e: "rroot t = n"
      with RNode.prems(2) t(2) have "isAnc t n x" by (cases t) auto
      with na show False ..
    qed
    moreover from RNode.IH [OF t(1) t(2) RNode.prems(2) na]
    have "x \<in> set (pre (rremove n t))" .
    ultimately show ?thesis using t(1) by auto
  qed
qed

lemma rremove_repr:
  assumes c: "\<And>x. x \<in> set (pre T) \<Longrightarrow>
      children (h' x) = filter (\<lambda>c. c \<noteq> n) (children (h x))"
    and p: "\<And>x. parent (h' x) = parent (h x)"
  shows "repr h T \<Longrightarrow> repr h' (rremove n T)"
  using c
proof (induction T)
  case (RNode r ts)
  have "children (h' r) = filter (\<lambda>c. c \<noteq> n) (map rroot ts)"
    using RNode.prems by simp
  also have "\<dots> = map rroot (map (rremove n) (filter (\<lambda>t. rroot t \<noteq> n) ts))"
    by (simp add: filter_map comp_def)
  finally have 1: "children (h' r) = map rroot (map (rremove n) (filter (\<lambda>t. rroot t \<noteq> n) ts))" .
  have 2: "parent (h' (rroot (rremove n t))) = Some r \<and> repr h' (rremove n t)"
    if "t \<in> set ts" for t
  proof -
    from RNode.prems(1) that have "repr h t" "parent (h (rroot t)) = Some r" by auto
    moreover have "children (h' x) = filter (\<lambda>c. c \<noteq> n) (children (h x))"
      if "x \<in> set (pre t)" for x
      using that \<open>t \<in> set ts\<close> by (intro RNode.prems(2)) auto
    ultimately show ?thesis using RNode.IH [OF that] p by simp
  qed
  from 1 2 show ?case by auto
qed

lemma rremove_drops:
  "distinct (pre T) \<Longrightarrow> n \<noteq> rroot T \<Longrightarrow> isAnc T n d \<Longrightarrow> d \<notin> set (pre (rremove n T))"
proof (induction T)
  case (RNode r ts)
  from RNode.prems(2,3) obtain t where t: "t \<in> set ts" "isAnc t n d" by auto
  with isAnc_in [of t n d] have dt: "d \<in> set (pre t)" by simp
  from RNode.prems(1) have dts: "distinct (concat (map pre ts))" and r: "r \<notin> set (concat (map pre ts))"
    by auto
  from t(1) obtain us vs where ts: "ts = us @ t # vs" by (auto simp add: in_set_conv_decomp)
  from dts dt have other: "d \<notin> set (concat (map pre us))" "d \<notin> set (concat (map pre vs))"
    by (auto simp add: ts)
  have "d \<notin> set (pre (rremove n t'))" if "t' \<in> set ts" "rroot t' \<noteq> n" for t'
  proof (cases "t' = t")
    case True
    have "distinct (pre t)" using dts t(1) by (rule distinct_concat_member)
    with RNode.IH [OF t(1) this _ t(2)] that True show ?thesis by simp
  next
    case False
    with that(1) ts have "t' \<in> set us \<or> t' \<in> set vs" by auto
    with other have "d \<notin> set (pre t')" by auto
    with rremove_pre_subset [of n t'] show ?thesis by blast
  qed
  moreover from r dt t(1) have "d \<noteq> r" by auto
  ultimately show ?case by auto
qed

lemma removeNode_shaped:
  assumes sh: "shaped t T" and n: "n \<in> set (pre T)" and res: "removeNode t n = Some (Inr (), t')"
  shows "\<exists>ns p. getSubtree (heap t) n = Some (n # ns) \<and> parent (heap t n) = Some p \<and>
    p \<in> set (pre T) \<and> n \<in> set (children (heap t p)) \<and>
    shaped t' (rremove n T) \<and>
    set (pre (rremove n T)) = set (pre T) - set (n # ns) \<and>
    xref t' = xref (purge (n # ns) t) \<and> root t' = root t \<and> q1Counter t' = q1Counter t \<and>
    (\<forall>x. parent (heap t' x) = parent (heap t x)) \<and>
    (\<forall>x. q1 (heap t' x) = q1 (heap t x)) \<and>
    (\<forall>x. q2 (heap t' x) = q2 (heap t x)) \<and>
    children (heap t' p) = remove1 n (children (heap t p)) \<and>
    (\<forall>x. x \<noteq> p \<longrightarrow> children (heap t' x) = children (heap t x)) \<and>
    (prevSibling (heap t n) \<noteq> Some n \<longrightarrow>
      (\<forall>x. nextSibling (heap t' x) =
         (if prevSibling (heap t n) = Some x then nextSibling (heap t n)
          else nextSibling (heap t x))) \<and>
      (\<forall>x. prevSibling (heap t' x) =
         (if nextSibling (heap t n) = Some x then prevSibling (heap t n)
          else prevSibling (heap t x))))"
proof -
  from sh have r: "repr (heap t) T" and dT: "distinct (pre T)" and rt: "rroot T = root t"
    and pr: "parent (heap t (root t)) = None"
    and bound: "\<forall>x \<in> set (pre T). x < nextId t \<and> nodeId (heap t x) = x"
    by (simp_all add: shaped_def)
  have nr: "n \<noteq> rroot T"
  proof
    assume "n = rroot T"
    with rt pr have "removeNode t n = Some (Inl RootRemovalForbidden, t)"
      by (simp add: removeNode_root)
    with res show False by simp
  qed
  from repr_parent [OF r n nr] obtain p
    where p: "p \<in> set (pre T)" "parent (heap t n) = Some p" "n \<in> set (children (heap t p))"
    by auto
  from getSubtree_member [OF r dT n] obtain ns
    where sub: "getSubtree (heap t) n = Some (n # ns)" and ns: "\<And>d. d \<in> set ns \<longleftrightarrow> isAnc T n d"
    by blast
  let ?cs = "children (heap t p)"
  have dcs: "distinct ?cs" by (rule repr_children_distinct [OF r dT p(1)])
  from p(3) obtain xs ys where cs: "?cs = xs @ n # ys" and nxs: "n \<notin> set xs"
    by (auto dest: split_list_first)
  from dcs have nys: "n \<notin> set ys" by (simp add: cs)
  from removeNode_Some [OF p(2) sub] res
  have x': "xref t' = xref (purge (n # ns) t)" and r': "root t' = root t"
    and i': "nextId t' = nextId t" and qc': "q1Counter t' = q1Counter t"
    and p': "\<And>x. parent (heap t' x) = parent (heap t x)"
    and id': "\<And>x. nodeId (heap t' x) = nodeId (heap t x)"
    and q1': "\<And>x. q1 (heap t' x) = q1 (heap t x)"
    and q2': "\<And>x. q2 (heap t' x) = q2 (heap t x)"
    and c': "\<And>x. children (heap t' x) =
      (if x = p then splice ?cs (indexOf ?cs n) 1 [] else children (heap t x))"
    and s': "prevSibling (heap t n) \<noteq> Some n \<longrightarrow>
      (\<forall>x. nextSibling (heap t' x) =
         (if prevSibling (heap t n) = Some x then nextSibling (heap t n)
          else nextSibling (heap t x))) \<and>
      (\<forall>x. prevSibling (heap t' x) =
         (if nextSibling (heap t n) = Some x then prevSibling (heap t n)
          else prevSibling (heap t x)))"
    by auto
  have cp: "children (heap t' p) = xs @ ys"
    using splice_remove [of xs n ys] by (simp add: c' cs indexOf_first [OF nxs])
  have rem: "remove1 n ?cs = xs @ ys" using nxs by (simp add: cs remove1_append)
  have filt: "children (heap t' x) = filter (\<lambda>c. c \<noteq> n) (children (heap t x))"
    if "x \<in> set (pre T)" for x
  proof (cases "x = p")
    case True
    from nxs nys have "filter (\<lambda>c. c \<noteq> n) xs = xs" "filter (\<lambda>c. c \<noteq> n) ys = ys"
      by (auto intro: filter_True)
    then have "filter (\<lambda>c. c \<noteq> n) (xs @ n # ys) = xs @ ys" by simp
    with True cp cs show ?thesis by simp
  next
    case False
    have "n \<notin> set (children (heap t x))"
    proof
      assume "n \<in> set (children (heap t x))"
      from repr_child [OF r that this] p(2) False show False by simp
    qed
    then have "filter (\<lambda>c. c \<noteq> n) (children (heap t x)) = children (heap t x)"
      by (auto intro: filter_True)
    with False show ?thesis by (simp add: c')
  qed
  have "repr (heap t') (rremove n T)"
    using filt p' r by (rule rremove_repr)
  moreover have "distinct (pre (rremove n T))" using dT by (rule rremove_distinct)
  moreover have "\<forall>x \<in> set (pre (rremove n T)). x < nextId t' \<and> nodeId (heap t' x) = x"
    using bound rremove_pre_subset [of n T] by (auto simp add: i' id')
  ultimately have sh': "shaped t' (rremove n T)"
    using rt pr by (simp add: shaped_def r' p')
  have "set (pre (rremove n T)) = set (pre T) - set (n # ns)"
  proof (intro equalityI subsetI)
    fix x assume x: "x \<in> set (pre (rremove n T))"
    with rremove_pre_subset have "x \<in> set (pre T)" by blast
    moreover from x rremove_absent [OF nr] have "x \<noteq> n" by auto
    moreover from x rremove_drops [OF dT nr] have "\<not> isAnc T n x" by blast
    ultimately show "x \<in> set (pre T) - set (n # ns)" by (simp add: ns)
  next
    fix x assume "x \<in> set (pre T) - set (n # ns)"
    then show "x \<in> set (pre (rremove n T))"
      by (intro rremove_keeps) (simp_all add: ns)
  qed
  with sub p sh' x' cp rem c' s' r' qc' p' q1' q2' show ?thesis by auto
qed

lemma removeNode_wellLinked:
  assumes sh: "shaped t T" and wl: "wellLinked t T" and n: "n \<in> set (pre T)"
    and res: "removeNode t n = Some (Inr (), t')"
  shows "wellLinked t' (rremove n T) \<and>
    siblingsLinked (heap t') (children (heap t' (the (parent (heap t n)))))"
proof -
  from sh have r: "repr (heap t) T" and dT: "distinct (pre T)" by (simp_all add: shaped_def)
  from removeNode_shaped [OF sh n res] obtain ns p
    where p: "p \<in> set (pre T)" "parent (heap t n) = Some p" "n \<in> set (children (heap t p))"
      and cp: "children (heap t' p) = remove1 n (children (heap t p))"
      and co: "\<And>x. x \<noteq> p \<Longrightarrow> children (heap t' x) = children (heap t x)"
      and s': "prevSibling (heap t n) \<noteq> Some n \<longrightarrow>
        (\<forall>x. nextSibling (heap t' x) =
           (if prevSibling (heap t n) = Some x then nextSibling (heap t n)
            else nextSibling (heap t x))) \<and>
        (\<forall>x. prevSibling (heap t' x) =
           (if nextSibling (heap t n) = Some x then prevSibling (heap t n)
            else prevSibling (heap t x)))"
    by blast
  let ?cs = "children (heap t p)"
  have dcs: "distinct ?cs" by (rule repr_children_distinct [OF r dT p(1)])
  from p(3) obtain xs ys where cs: "?cs = xs @ n # ys" and nxs: "n \<notin> set xs"
    by (auto dest: split_list_first)
  from wl p(1) have "linked (heap t) None ?cs None"
    by (simp add: wellLinked_def siblingsLinked_def)
  then have l: "linked (heap t) None (xs @ n # ys) None" by (simp only: cs)
  from dcs have d: "distinct (xs @ n # ys)" by (simp add: cs)
  from l have pn: "prevSibling (heap t n) = (if xs = [] then None else Some (last xs))"
    and nn: "nextSibling (heap t n) = (case ys of [] \<Rightarrow> None | y # _ \<Rightarrow> Some y)"
    by (simp_all add: linked_append)
  from pn nxs have "prevSibling (heap t n) \<noteq> Some n" by auto
  with s' have nx': "\<And>x. nextSibling (heap t' x) =
        (if prevSibling (heap t n) = Some x then nextSibling (heap t n)
         else nextSibling (heap t x))"
    and pv': "\<And>x. prevSibling (heap t' x) =
        (if nextSibling (heap t n) = Some x then prevSibling (heap t n)
         else prevSibling (heap t x))"
    by simp_all
  have frame: "prevSibling (heap t' x) = prevSibling (heap t x) \<and>
      nextSibling (heap t' x) = nextSibling (heap t x)" if "x \<notin> set ?cs" for x
  proof -
    have "prevSibling (heap t n) \<noteq> Some x" using pn that cs by auto
    moreover have "nextSibling (heap t n) \<noteq> Some x" using nn that cs by (cases ys) auto
    ultimately show ?thesis by (simp add: nx' pv')
  qed
  have rem: "remove1 n ?cs = xs @ ys" using nxs by (simp add: cs remove1_append)
  have lp: "linked (heap t') None (children (heap t' p)) None"
    unfolding cp rem using l d pv' nx' by (rule linked_remove)
  have "siblingsLinked (heap t') (children (heap t' x))" if "x \<in> set (pre (rremove n T))" for x
  proof (cases "x = p")
    case True
    with lp show ?thesis by (simp add: siblingsLinked_def)
  next
    case False
    from that rremove_pre_subset have xT: "x \<in> set (pre T)" by blast
    have "linked (heap t') None (children (heap t x)) None =
        linked (heap t) None (children (heap t x)) None"
    proof (rule linked_cong)
      fix c assume c: "c \<in> set (children (heap t x))"
      have "c \<notin> set ?cs"
      proof
        assume "c \<in> set ?cs"
        from repr_child [OF r xT c] repr_child [OF r p(1) this] False show False by simp
      qed
      then show "prevSibling (heap t' c) = prevSibling (heap t c) \<and>
          nextSibling (heap t' c) = nextSibling (heap t c)" by (rule frame)
    qed
    with wl xT co [OF False] show ?thesis by (simp add: wellLinked_def siblingsLinked_def)
  qed
  with lp p(2) show ?thesis by (simp add: wellLinked_def siblingsLinked_def)
qed

lemma sorted_wrt_concat_sub:
  assumes "sorted_wrt R (concat (map f ts))"
    and "\<And>t. t \<in> set ts \<Longrightarrow> sorted_wrt R (f t) \<Longrightarrow> sorted_wrt R (g t)"
    and "\<And>t. set (g t) \<subseteq> set (f t)"
  shows "sorted_wrt R (concat (map g (filter P ts)))"
  using assms(1,2)
proof (induction ts)
  case Nil
  then show ?case by simp
next
  case (Cons t ts)
  from Cons.prems(1) have st: "sorted_wrt R (f t)" and sts: "sorted_wrt R (concat (map f ts))"
    and cross: "\<forall>x \<in> set (f t). \<forall>y \<in> set (concat (map f ts)). R x y"
    by (simp_all add: sorted_wrt_append)
  have rest: "sorted_wrt R (concat (map g (filter P ts)))"
    by (rule Cons.IH [OF sts]) (simp add: Cons.prems(2))
  have sub: "set (concat (map g (filter P ts))) \<subseteq> set (concat (map f ts))"
    using assms(3) by fastforce
  have "sorted_wrt R (g t)" by (rule Cons.prems(2)) (simp_all add: st)
  moreover have "\<forall>x \<in> set (g t). \<forall>y \<in> set (concat (map g (filter P ts))). R x y"
    using cross sub assms(3) [of t] by blast
  ultimately show ?case using rest by (simp add: sorted_wrt_append)
qed

lemma rremove_sorted_pre: "sorted_wrt R (pre T) \<Longrightarrow> sorted_wrt R (pre (rremove n T))"
proof (induction T)
  case (RNode r ts)
  let ?F = "concat (map (\<lambda>t. pre (rremove n t)) (filter (\<lambda>t. rroot t \<noteq> n) ts))"
  from RNode.prems have s: "sorted_wrt R (concat (map pre ts))"
    and r: "\<forall>x \<in> set (concat (map pre ts)). R r x" by simp_all
  have "sorted_wrt R ?F"
    using s by (rule sorted_wrt_concat_sub) (simp_all add: RNode.IH rremove_pre_subset)
  moreover have "set ?F \<subseteq> set (concat (map pre ts))"
    using rremove_pre_subset by fastforce
  ultimately show ?case using r by (auto simp add: comp_def)
qed

lemma rremove_sorted_post: "sorted_wrt R (post T) \<Longrightarrow> sorted_wrt R (post (rremove n T))"
proof (induction T)
  case (RNode r ts)
  let ?F = "concat (map (\<lambda>t. post (rremove n t)) (filter (\<lambda>t. rroot t \<noteq> n) ts))"
  from RNode.prems have s: "sorted_wrt R (concat (map post ts))"
    and r: "\<forall>x \<in> set (concat (map post ts)). R x r" by (simp_all add: sorted_wrt_append)
  have sub1: "set (post (rremove n t)) \<subseteq> set (post t)" for t
    using rremove_pre_subset [of n t] by (simp add: set_post_pre)
  have "sorted_wrt R ?F"
    using s by (rule sorted_wrt_concat_sub) (simp_all add: RNode.IH sub1)
  moreover have "set ?F \<subseteq> set (concat (map post ts))"
    using sub1 by fastforce
  ultimately show ?case using r by (auto simp add: comp_def sorted_wrt_append)
qed

subsection \<open>Invariants of constructed trees\<close>

lemma xrefGet_xrefAdd:
  "set (xrefGet (xrefAdd index token node) tok) \<subseteq> insert node (set (xrefGet index tok))"
  by (auto simp add: xrefGet_def xrefAdd_def Let_def split: option.splits if_splits)

lemma recalculateQ2_frame:
  assumes "shaped t T" and "recalculateQ2 t = Some t'"
  shows "t' = t\<lparr>heap := heap t'\<rparr>"
    and "heap t' x = (heap t x)\<lparr>q2 := q2 (heap t' x)\<rparr>"
    and "x \<notin> treeNodes t \<Longrightarrow> heap t' x = heap t x"
    and "shaped t' T"
    and "treeNodes t' = treeNodes t"
proof -
  from assms have t': "t' = t\<lparr>heap := fst (assignQ2 T (heap t, 0))\<rparr>"
    using shaped_recalculateQ2(1) by simp
  show "t' = t\<lparr>heap := heap t'\<rparr>" by (simp add: t')
  show "heap t' x = (heap t x)\<lparr>q2 := q2 (heap t' x)\<rparr>"
    using assignQ2_frame [of T "(heap t, 0)" x] by (simp add: t')
  show "x \<notin> treeNodes t \<Longrightarrow> heap t' x = heap t x"
    using assignQ2_outside [of x T "(heap t, 0)"] by (simp add: t' shaped_treeNodes [OF assms(1)])
  show sh: "shaped t' T" unfolding t' by (rule shaped_recalculateQ2(2) [OF assms(1)])
  show "treeNodes t' = treeNodes t"
    by (simp add: shaped_treeNodes [OF sh] shaped_treeNodes [OF assms(1)])
qed

lemma recalculateQ2_wellLinked:
  assumes "shaped t T" and "wellLinked t T" and "recalculateQ2 t = Some t'"
  shows "wellLinked t' T"
proof -
  from assms(1,3) have t': "t' = t\<lparr>heap := fst (assignQ2 T (heap t, 0))\<rparr>"
    using shaped_recalculateQ2(1) by simp
  have "linked (fst (assignQ2 T (heap t, 0))) None cs None = linked (heap t) None cs None" for cs
    by (rule linked_cong) simp
  with assms(2) show ?thesis by (simp add: t' wellLinked_def siblingsLinked_def)
qed

lemma constructed_inv:
  "constructed t \<Longrightarrow>
   \<exists>T. shaped t T \<and> wellLinked t T \<and> (\<forall>tok. set (xrefGet (xref t) tok) \<subseteq> set (pre T))"
proof (induction rule: constructed.induct)
  case (constructed_create rootData)
  have "wellLinked (createDTree rootData) (RNode 1 [])"
    by (simp add: wellLinked_def siblingsLinked_def createDTree_def)
  moreover have "xrefGet (xref (createDTree rootData)) tok = []" for tok
    by (simp add: createDTree_def xrefGet_def)
  ultimately show ?case using createDTree_shaped [of rootData] by (intro exI [of _ "RNode 1 []"]) simp
next
  case (constructed_add t par afterSibling dat)
  then obtain T where T: "shaped t T" "wellLinked t T"
    and x: "\<And>tok. set (xrefGet (xref t) tok) \<subseteq> set (pre T)" by blast
  with constructed_add.hyps(2) have p: "par \<in> set (pre T)" by (simp add: shaped_treeNodes)
  let ?T' = "rinsert par (case afterSibling of None \<Rightarrow> 0
      | Some a \<Rightarrow> nat (indexOf (children (heap t par)) a + 1)) (nextId t) T"
  from T(1) have d: "distinct (pre T)" by (simp add: shaped_def)
  have "set (pre T) \<subseteq> set (pre ?T')" by (auto simp add: rinsert_set [OF d p])
  with x have "\<And>tok. set (xrefGet (xref (fst (addNode t par dat afterSibling))) tok) \<subseteq> set (pre ?T')"
    by fastforce
  with addNode_shaped [OF T(1) p, of dat afterSibling]
    addNode_wellLinked [OF T p constructed_add.hyps(3), of dat]
  show ?case by blast
next
  case (constructed_index t node token)
  then obtain T where T: "shaped t T" "wellLinked t T"
    and x: "\<And>tok. set (xrefGet (xref t) tok) \<subseteq> set (pre T)" by blast
  from T have "shaped (t\<lparr>xref := xrefAdd (xref t) token node\<rparr>) T"
    "wellLinked (t\<lparr>xref := xrefAdd (xref t) token node\<rparr>) T"
    by (simp_all add: shaped_def wellLinked_def)
  moreover have "set (xrefGet (xref (t\<lparr>xref := xrefAdd (xref t) token node\<rparr>)) tok) \<subseteq> set (pre T)"
    for tok
    using xrefGet_xrefAdd [of "xref t" token node tok] x [of tok] constructed_index.hyps(2)
    by (auto simp add: shaped_treeNodes [OF T(1)])
  ultimately show ?case by blast
next
  case (constructed_recalculate t t')
  then obtain T where T: "shaped t T" "wellLinked t T"
    and x: "\<And>tok. set (xrefGet (xref t) tok) \<subseteq> set (pre T)" by blast
  note f = recalculateQ2_frame [OF T(1) constructed_recalculate.hyps(2)]
  from f(1) have "xref t' = xref t" by (cases t', cases t) simp
  with x f(4) recalculateQ2_wellLinked [OF T constructed_recalculate.hyps(2)]
  show ?case by (intro exI [of _ T]) simp
next
  case (constructed_remove t node t')
  then obtain T where T: "shaped t T" "wellLinked t T"
    and x: "\<And>tok. set (xrefGet (xref t) tok) \<subseteq> set (pre T)" by blast
  from constructed_remove.hyps(2) have n: "node \<in> set (pre T)"
    by (simp add: shaped_treeNodes [OF T(1)])
  from removeNode_shaped [OF T(1) n constructed_remove.hyps(3)] obtain ns
    where sh: "shaped t' (rremove node T)"
      and s: "set (pre (rremove node T)) = set (pre T) - set (node # ns)"
      and xr: "xref t' = xref (purge (node # ns) t)" by blast
  have "set (xrefGet (xref t') tok) \<subseteq> set (pre (rremove node T))" for tok
    unfolding xr s purge_xref using x [of tok] by blast
  with sh removeNode_wellLinked [OF T n constructed_remove.hyps(3)] show ?case by blast
qed

lemma constructed_shaped: "constructed t \<Longrightarrow> \<exists>T. shaped t T"
  using constructed_inv by blast

lemma constructed_linked: "constructed t \<Longrightarrow> \<exists>T. shaped t T \<and> wellLinked t T"
  using constructed_inv by blast

lemma constructed_xref: "constructed t \<Longrightarrow> set (xrefGet (xref t) tok) \<subseteq> treeNodes t"
proof -
  assume "constructed t"
  from constructed_inv [OF this] obtain T
    where "shaped t T" "set (xrefGet (xref t) tok) \<subseteq> set (pre T)" by blast
  then show ?thesis by (simp add: shaped_treeNodes)
qed

lemma addNode_treeNodes:
  assumes "constructed t" and "p \<in> treeNodes t"
  shows "treeNodes (fst (addNode t p d after)) = insert (nextId t) (treeNodes t)"
proof -
  from constructed_shaped [OF assms(1)] obtain T where T: "shaped t T" by blast
  with assms(2) have p: "p \<in> set (pre T)" by (simp add: shaped_treeNodes)
  from T p show ?thesis by (rule addNode_shaped_treeNodes)
qed

lemma appendChild_constructed:
  "constructed t \<Longrightarrow> p \<in> treeNodes t \<Longrightarrow> constructed (fst (appendChild t p d))"
  unfolding appendChild_addNode by (rule constructed_add) auto

lemma appendChild_treeNodes:
  "constructed t \<Longrightarrow> p \<in> treeNodes t \<Longrightarrow>
   treeNodes (fst (appendChild t p d)) = insert (nextId t) (treeNodes t)"
  unfolding appendChild_addNode by (rule addNode_treeNodes)

subsection \<open>Invariants of the trees built in complete-subtree order\<close>

lemma dfsBuilt_preOrdered: "dfsBuilt t \<Longrightarrow> \<exists>T. preOrdered t T"
proof (induction rule: dfsBuilt.induct)
  case (dfsBuilt_create rootData)
  have "preOrdered (createDTree rootData) (RNode 1 [])"
    using createDTree_shaped [of rootData] by (simp add: preOrdered_def createDTree_def)
  then show ?case ..
next
  case (dfsBuilt_append t par dat)
  then show ?case using appendChild_preOrdered by blast
next
  case (dfsBuilt_index t node token)
  then obtain T where "preOrdered t T" by blast
  then have "preOrdered (t\<lparr>xref := xrefAdd (xref t) token node\<rparr>) T"
    by (simp add: preOrdered_def shaped_def)
  then show ?case ..
next
  case (dfsBuilt_recalculate t t')
  then obtain T where T: "preOrdered t T" by blast
  then have sh: "shaped t T" by (simp add: preOrdered_def)
  from sh dfsBuilt_recalculate.hyps(2)
  have t': "t' = t\<lparr>heap := fst (assignQ2 T (heap t, 0))\<rparr>"
    using shaped_recalculateQ2(1) by simp
  from T recalculateQ2_frame(4) [OF sh dfsBuilt_recalculate.hyps(2)]
  have "preOrdered t' T" by (simp add: preOrdered_def t')
  then show ?case ..
next
  case (dfsBuilt_remove t node t')
  then obtain T where T: "preOrdered t T" by blast
  then have sh: "shaped t T" by (simp add: preOrdered_def)
  from dfsBuilt_remove.hyps(2) have n: "node \<in> set (pre T)"
    by (simp add: shaped_treeNodes [OF sh])
  from removeNode_shaped [OF sh n dfsBuilt_remove.hyps(3)]
  have sh': "shaped t' (rremove node T)" and qc: "q1Counter t' = q1Counter t"
    and q1': "\<And>x. q1 (heap t' x) = q1 (heap t x)" by auto
  from T have "sorted_wrt (\<lambda>x y. q1 (heap t x) < q1 (heap t y)) (pre (rremove node T))"
    by (intro rremove_sorted_pre) (simp add: preOrdered_def)
  moreover from T rremove_pre_subset [of node T]
  have "\<forall>x \<in> set (pre (rremove node T)). q1 (heap t x) \<le> q1Counter t"
    by (auto simp add: preOrdered_def)
  ultimately have "preOrdered t' (rremove node T)"
    using sh' by (simp add: preOrdered_def q1' qc)
  then show ?case ..
qed

lemma dfsBuilt_constructed: "dfsBuilt t \<Longrightarrow> constructed t"
proof (induction rule: dfsBuilt.induct)
  case (dfsBuilt_create rootData)
  show ?case by (rule constructed_create)
next
  case (dfsBuilt_append t par dat)
  from constructed_shaped [OF dfsBuilt_append.IH] obtain T where T: "shaped t T" by blast
  then have "par \<in> set (spine T)"
    using rightSpine_spine [OF dfsBuilt_append.hyps(2), of T] by (simp add: shaped_def)
  with spine_subset_pre [of T] have "par \<in> treeNodes t"
    by (auto simp add: shaped_treeNodes [OF T])
  with dfsBuilt_append.IH show ?case by (rule appendChild_constructed)
next
  case (dfsBuilt_index t node token)
  then show ?case by (auto intro: constructed_index)
next
  case (dfsBuilt_recalculate t t')
  then show ?case by (auto intro: constructed_recalculate)
next
  case (dfsBuilt_remove t node t')
  then show ?case by (auto intro: constructed_remove)
qed

text \<open>
  With fresh coordinates \<open>q1\<close> increases along the pre-order and \<open>q2\<close> along the
  post-order of the tree.
\<close>
lemma freshCoords_ordered:
  "freshCoords t \<Longrightarrow>
   \<exists>T. shaped t T \<and> sorted_wrt (\<lambda>x y. q1 (heap t x) < q1 (heap t y)) (pre T) \<and>
       sorted_wrt (\<lambda>x y. q2 (heap t x) < q2 (heap t y)) (post T)"
proof (induction rule: freshCoords.induct)
  case (freshCoords_recalculate t t')
  from dfsBuilt_preOrdered [OF freshCoords_recalculate.hyps(1)] obtain T
    where T: "preOrdered t T" by blast
  then have sh: "shaped t T" by (simp add: preOrdered_def)
  from sh freshCoords_recalculate.hyps(2)
  have t': "t' = t\<lparr>heap := fst (assignQ2 T (heap t, 0))\<rparr>"
    using shaped_recalculateQ2(1) by simp
  from sh have d: "distinct (pre T)" by (simp add: shaped_def)
  have "sorted_wrt (<) (map (\<lambda>x. q2 (heap t' x)) (post T))"
    unfolding t' using assignQ2_sorted [OF d] by simp
  then have "sorted_wrt (\<lambda>x y. q2 (heap t' x) < q2 (heap t' y)) (post T)"
    by (simp add: sorted_wrt_map)
  moreover from T have "sorted_wrt (\<lambda>x y. q1 (heap t' x) < q1 (heap t' y)) (pre T)"
    by (simp add: preOrdered_def t')
  ultimately show ?case
    using recalculateQ2_frame(4) [OF sh freshCoords_recalculate.hyps(2)] by blast
next
  case (freshCoords_index t node token)
  then obtain T where T: "shaped t T"
    "sorted_wrt (\<lambda>x y. q1 (heap t x) < q1 (heap t y)) (pre T)"
    "sorted_wrt (\<lambda>x y. q2 (heap t x) < q2 (heap t y)) (post T)" by blast
  then show ?case by (intro exI [of _ T]) (simp add: shaped_def)
next
  case (freshCoords_remove t node t')
  then obtain T where T: "shaped t T"
    "sorted_wrt (\<lambda>x y. q1 (heap t x) < q1 (heap t y)) (pre T)"
    "sorted_wrt (\<lambda>x y. q2 (heap t x) < q2 (heap t y)) (post T)" by blast
  from freshCoords_remove.hyps(2) have n: "node \<in> set (pre T)"
    by (simp add: shaped_treeNodes [OF T(1)])
  from removeNode_shaped [OF T(1) n freshCoords_remove.hyps(3)]
  have sh': "shaped t' (rremove node T)"
    and q1': "\<And>x. q1 (heap t' x) = q1 (heap t x)"
    and q2': "\<And>x. q2 (heap t' x) = q2 (heap t x)" by auto
  from T(2) have "sorted_wrt (\<lambda>x y. q1 (heap t x) < q1 (heap t y)) (pre (rremove node T))"
    by (rule rremove_sorted_pre)
  moreover from T(3) have "sorted_wrt (\<lambda>x y. q2 (heap t x) < q2 (heap t y)) (post (rremove node T))"
    by (rule rremove_sorted_post)
  ultimately show ?case using sh' by (intro exI [of _ "rremove node T"]) (simp add: q1' q2')
qed

lemma freshCoords_constructed: "freshCoords t \<Longrightarrow> constructed t"
proof (induction rule: freshCoords.induct)
  case (freshCoords_recalculate t t')
  then show ?case by (auto intro: constructed_recalculate dfsBuilt_constructed)
next
  case (freshCoords_index t node token)
  then show ?case by (auto intro: constructed_index)
next
  case (freshCoords_remove t node t')
  then show ?case by (auto intro: constructed_remove)
qed

subsection \<open>The example trees are built through the interface\<close>

lemma interleavedTree_constructed: "constructed interleavedTree"
proof -
  let ?t0 = "createDTree exampleData"
  let ?t1 = "fst (appendChild ?t0 1 exampleData)"
  let ?t2 = "fst (appendChild ?t1 1 exampleData)"
  let ?t3 = "fst (appendChild ?t2 2 exampleData)"
  have c0: "constructed ?t0" by (rule constructed_create)
  have n0: "treeNodes ?t0 = {1}" by (rule createDTree_treeNodes)
  have c1: "constructed ?t1" by (rule appendChild_constructed [OF c0]) (use n0 in simp)
  have n1: "treeNodes ?t1 = {1, 2}"
    by (subst appendChild_treeNodes [OF c0]) (use n0 in auto)
  have c2: "constructed ?t2" by (rule appendChild_constructed [OF c1]) (use n1 in simp)
  have n2: "treeNodes ?t2 = {1, 2, 3}"
    by (subst appendChild_treeNodes [OF c1]) (use n1 in auto)
  have c3: "constructed ?t3" by (rule appendChild_constructed [OF c2]) (use n2 in simp)
  have n3: "treeNodes ?t3 = {1, 2, 3, 4}"
    by (subst appendChild_treeNodes [OF c2]) (use n2 in auto)
  have "constructed (fst (appendChild ?t3 3 exampleData))"
    by (rule appendChild_constructed [OF c3]) (use n3 in simp)
  then show ?thesis by (simp add: interleavedTree_def appendAll_def)
qed

lemma dfsTree_dfsBuilt: "dfsBuilt dfsTree"
proof -
  let ?t0 = "createDTree exampleData"
  let ?t1 = "fst (appendChild ?t0 1 exampleData)"
  let ?t2 = "fst (appendChild ?t1 2 exampleData)"
  let ?t3 = "fst (appendChild ?t2 2 exampleData)"
  have b0: "dfsBuilt ?t0" by (rule dfsBuilt_create)
  have b1: "dfsBuilt ?t1"
    using dfsBuilt_append [OF b0, of 1] rightSpine_root [of "heap ?t0" 1] by simp
  have c1: "children (heap ?t1 1) = [2]"
    by (simp add: appendChild_children)
  have s1: "rightSpine (heap ?t1) (root ?t1) 2"
    using rightSpine_last [OF rightSpine_root, of "heap ?t1" 1] c1 by simp
  have b2: "dfsBuilt ?t2" by (rule dfsBuilt_append [OF b1 s1])
  have c2: "children (heap ?t2 1) = [2]"
    by (simp add: appendChild_children c1)
  have s2: "rightSpine (heap ?t2) (root ?t2) 2"
    using rightSpine_last [OF rightSpine_root, of "heap ?t2" 1] c2 by simp
  have b3: "dfsBuilt ?t3" by (rule dfsBuilt_append [OF b2 s2])
  have "dfsBuilt (fst (appendChild ?t3 1 exampleData))"
    using dfsBuilt_append [OF b3, of 1] rightSpine_root [of "heap ?t3" 1] by simp
  then show ?thesis by (simp add: dfsTree_def appendAll_def)
qed

lemma dfsBuilt_recomputed:
  assumes "dfsBuilt t"
  shows "dfsBuilt (recomputed t)"
    and "children (heap (recomputed t) x) = children (heap t x)"
    and "root (recomputed t) = root t" and "nextId (recomputed t) = nextId t"
proof -
  from dfsBuilt_preOrdered [OF assms] obtain T where T: "shaped t T"
    by (auto simp add: preOrdered_def)
  from shaped_recalculateQ2(1) [OF T]
  have r: "recalculateQ2 t = Some (recomputed t)"
    and e: "recomputed t = t\<lparr>heap := fst (assignQ2 T (heap t, 0))\<rparr>"
    by (simp_all add: recomputed_def)
  from assms r show "dfsBuilt (recomputed t)" by (rule dfsBuilt_recalculate)
  show "children (heap (recomputed t) x) = children (heap t x)" by (simp add: e)
  show "root (recomputed t) = root t" by (simp add: e)
  show "nextId (recomputed t) = nextId t" by (simp add: e)
qed

lemma rebuiltTree_dfsBuilt: "dfsBuilt rebuiltTree"
proof -
  let ?t0 = "createDTree exampleData"
  let ?t1 = "recomputed (fst (appendChild ?t0 1 exampleData))"
  let ?t2 = "recomputed (fst (appendChild ?t1 2 exampleData))"
  have b0: "dfsBuilt ?t0" by (rule dfsBuilt_create)
  have a1: "dfsBuilt (fst (appendChild ?t0 1 exampleData))"
    using dfsBuilt_append [OF b0, of 1] rightSpine_root [of "heap ?t0" 1] by simp
  note r1 = dfsBuilt_recomputed [OF a1]
  have c1: "children (heap ?t1 1) = [2]"
    unfolding r1(2) by (simp add: appendChild_children)
  have rt1: "root ?t1 = 1" unfolding r1(3) by simp
  have s1: "rightSpine (heap ?t1) (root ?t1) 2"
    using rightSpine_last [OF rightSpine_root, of "heap ?t1" 1] c1 unfolding rt1 by simp
  have a2: "dfsBuilt (fst (appendChild ?t1 2 exampleData))"
    by (rule dfsBuilt_append [OF r1(1) s1])
  note r2 = dfsBuilt_recomputed [OF a2]
  have "root ?t2 = 1" unfolding r2(3) using rt1 by simp
  then have "rightSpine (heap ?t2) (root ?t2) 1"
    using rightSpine_root [of "heap ?t2" 1] by simp
  from dfsBuilt_append [OF r2(1) this]
  show ?thesis by (simp add: rebuiltTree_def Let_def)
qed

subsection \<open>Claims on the coordinates\<close>

text \<open>
  C1. Let a tree be built by \<open>appendChild\<close> in complete-subtree order (each node is
  appended under a node of the right spine; in between, tokens may be indexed,
  \<open>recalculateQ2\<close> may run and subtrees may be removed). Then \<open>recalculateQ2\<close>
  returns; it changes nothing but the \<open>q2\<close> of the nodes of the tree, so the tree has
  the same nodes, parents and children as before; and afterwards, for all nodes \<open>a\<close> and
  \<open>b\<close> of the tree, \<open>a\<close> is an ancestor of \<open>b\<close> if and only if \<open>a.q1 < b.q1\<close> and
  \<open>a.q2 > b.q2\<close>, which is \<open>a.contains(b)\<close>.
\<close>
theorem containment_iff_ancestor:
  assumes "dfsBuilt t"
  shows "\<exists>t'. recalculateQ2 t = Some t' \<and> t'\<lparr>heap := heap t\<rparr> = t \<and>
    (\<forall>x. (heap t' x)\<lparr>q2 := q2 (heap t x)\<rparr> = heap t x) \<and>
    (\<forall>x. x \<notin> treeNodes t \<longrightarrow> heap t' x = heap t x) \<and>
    treeNodes t' = treeNodes t \<and>
    (\<forall>a \<in> treeNodes t. \<forall>b \<in> treeNodes t.
       isAncestor (heap t') a b = isAncestor (heap t) a b \<and>
       isAncestor (heap t) a b = contains (heap t') a b)"
proof -
  from dfsBuilt_preOrdered [OF assms] obtain T where T: "shaped t T"
    and so: "sorted_wrt (\<lambda>x y. q1 (heap t x) < q1 (heap t y)) (pre T)"
    by (auto simp add: preOrdered_def)
  let ?h' = "fst (assignQ2 T (heap t, 0))"
  let ?t' = "t\<lparr>heap := ?h'\<rparr>"
  have rec: "recalculateQ2 t = Some ?t'" and T': "shaped ?t' T"
    using shaped_recalculateQ2 [OF T] by simp_all
  note fr = recalculateQ2_frame [OF T rec]
  from T have d: "distinct (pre T)" by (simp add: shaped_def)
  have f: "sorted_wrt (\<lambda>x y. q1 (?h' x) < q1 (?h' y)) (pre T)"
    using so by simp
  have g: "sorted_wrt (\<lambda>x y. q2 (?h' x) < q2 (?h' y)) (post T)"
    using assignQ2_sorted [OF d, of "(heap t, 0)"] by (simp add: sorted_wrt_map)
  have iff: "isAncestor (heap ?t') a b = isAncestor (heap t) a b \<and>
      isAncestor (heap t) a b = contains (heap ?t') a b"
    if "a \<in> treeNodes t" "b \<in> treeNodes t" for a b
  proof -
    from that have a: "a \<in> set (pre T)" and b: "b \<in> set (pre T)"
      by (simp_all add: shaped_treeNodes [OF T])
    have 1: "isAncestor (heap ?t') a b = isAnc T a b"
      by (rule shaped_isAncestor [OF T' b])
    have 2: "isAncestor (heap t) a b = isAnc T a b"
      by (rule shaped_isAncestor [OF T b])
    have "isAnc T a b = (q1 (?h' a) < q1 (?h' b) \<and> q2 (?h' b) < q2 (?h' a))"
      by (rule pre_post_anc_iff [OF d f g a b])
    with 1 2 show ?thesis by (simp add: contains_def)
  qed
  have same: "(heap ?t' x)\<lparr>q2 := q2 (heap t x)\<rparr> = heap t x" for x
    by (subst fr(2) [of x]) simp
  have "?t'\<lparr>heap := heap t\<rparr> = t" by simp
  with rec same fr(3) fr(5) iff show ?thesis by blast
qed

theorem containment_iff_ancestor_witness:
  "dfsBuilt rebuiltTree \<and>
   (\<exists>t'. recalculateQ2 rebuiltTree = Some t' \<and> t'\<lparr>heap := heap rebuiltTree\<rparr> = rebuiltTree \<and>
    (\<forall>x. (heap t' x)\<lparr>q2 := q2 (heap rebuiltTree x)\<rparr> = heap rebuiltTree x) \<and>
    (\<forall>x. x \<notin> treeNodes rebuiltTree \<longrightarrow> heap t' x = heap rebuiltTree x) \<and>
    treeNodes t' = treeNodes rebuiltTree \<and>
    (\<forall>a \<in> treeNodes rebuiltTree. \<forall>b \<in> treeNodes rebuiltTree.
       isAncestor (heap t') a b = isAncestor (heap rebuiltTree) a b \<and>
       isAncestor (heap rebuiltTree) a b = contains (heap t') a b))"
  using containment_iff_ancestor [OF rebuiltTree_dfsBuilt] rebuiltTree_dfsBuilt
  by blast

text \<open>
  C2. On every tree constructed through the interface, in whatever order the nodes were
  inserted, and whether or not it was recomputed or pruned before, \<open>recalculateQ2\<close>
  returns; it changes nothing but the \<open>q2\<close> of the nodes of the tree, so the
  descendants and ancestors of a node are the same before and after; and in the tree it
  leaves, the \<open>q2\<close> of every node is strictly greater than the \<open>q2\<close> of each of its
  descendants and strictly less than the \<open>q2\<close> of each of its ancestors.
\<close>
theorem recalculateQ2_order:
  assumes "constructed t"
  shows "\<exists>t'. recalculateQ2 t = Some t' \<and> t'\<lparr>heap := heap t\<rparr> = t \<and>
    (\<forall>x. (heap t' x)\<lparr>q2 := q2 (heap t x)\<rparr> = heap t x) \<and>
    (\<forall>x. x \<notin> treeNodes t \<longrightarrow> heap t' x = heap t x) \<and>
    treeNodes t' = treeNodes t \<and>
    (\<forall>n \<in> treeNodes t.
       (\<forall>d. isDescendant (heap t') d n = isDescendant (heap t) d n) \<and>
       (\<forall>a. isAncestor (heap t') a n = isAncestor (heap t) a n) \<and>
       (\<forall>d. isDescendant (heap t) d n \<longrightarrow> q2 (heap t' d) < q2 (heap t' n)) \<and>
       (\<forall>a. isAncestor (heap t) a n \<longrightarrow> q2 (heap t' n) < q2 (heap t' a)))"
proof -
  from constructed_shaped [OF assms] obtain T where T: "shaped t T" by blast
  let ?t' = "t\<lparr>heap := fst (assignQ2 T (heap t, 0))\<rparr>"
  have rec: "recalculateQ2 t = Some ?t'" and T': "shaped ?t' T"
    using shaped_recalculateQ2 [OF T] by simp_all
  note fr = recalculateQ2_frame [OF T rec]
  have rel: "(\<forall>d. isDescendant (heap ?t') d n = isDescendant (heap t) d n) \<and>
      (\<forall>a. isAncestor (heap ?t') a n = isAncestor (heap t) a n)"
    if "n \<in> treeNodes t" for n
  proof -
    from that have n: "n \<in> set (pre T)" by (simp add: shaped_treeNodes [OF T])
    show ?thesis
      by (simp only: shaped_isDescendant [OF T n] shaped_isDescendant [OF T' n]
          shaped_isAncestor [OF T n] shaped_isAncestor [OF T' n]) simp
  qed
  have desc: "q2 (heap ?t' d) < q2 (heap ?t' n)"
    if "n \<in> treeNodes t" "isDescendant (heap t) d n" for n d
  proof -
    from that(1) have n: "n \<in> set (pre T)" by (simp add: shaped_treeNodes [OF T])
    then have "isAnc T n d" using shaped_isDescendant [OF T, of n d] that(2) by simp
    from shaped_q2_order [OF T rec this] show ?thesis .
  qed
  have anc: "q2 (heap ?t' n) < q2 (heap ?t' a)"
    if "n \<in> treeNodes t" "isAncestor (heap t) a n" for n a
  proof -
    from that(1) have n: "n \<in> set (pre T)" by (simp add: shaped_treeNodes [OF T])
    then have "isAnc T a n" using shaped_isAncestor [OF T, of n a] that(2) by simp
    from shaped_q2_order [OF T rec this] show ?thesis .
  qed
  have same: "(heap ?t' x)\<lparr>q2 := q2 (heap t x)\<rparr> = heap t x" for x
    by (subst fr(2) [of x]) simp
  have "?t'\<lparr>heap := heap t\<rparr> = t" by simp
  with rec same fr(3) fr(5) rel desc anc show ?thesis by blast
qed

theorem recalculateQ2_order_witness:
  "constructed interleavedTree \<and>
   (\<exists>t'. recalculateQ2 interleavedTree = Some t' \<and>
    t'\<lparr>heap := heap interleavedTree\<rparr> = interleavedTree \<and>
    (\<forall>x. (heap t' x)\<lparr>q2 := q2 (heap interleavedTree x)\<rparr> = heap interleavedTree x) \<and>
    (\<forall>x. x \<notin> treeNodes interleavedTree \<longrightarrow> heap t' x = heap interleavedTree x) \<and>
    treeNodes t' = treeNodes interleavedTree \<and>
    (\<forall>n \<in> treeNodes interleavedTree.
       (\<forall>d. isDescendant (heap t') d n = isDescendant (heap interleavedTree) d n) \<and>
       (\<forall>a. isAncestor (heap t') a n = isAncestor (heap interleavedTree) a n) \<and>
       (\<forall>d. isDescendant (heap interleavedTree) d n \<longrightarrow> q2 (heap t' d) < q2 (heap t' n)) \<and>
       (\<forall>a. isAncestor (heap interleavedTree) a n \<longrightarrow> q2 (heap t' n) < q2 (heap t' a))))"
  using recalculateQ2_order [OF interleavedTree_constructed] interleavedTree_constructed
  by blast

subsection \<open>The nearest common dominator\<close>

lemma freshCoords_coordinated: "freshCoords t \<Longrightarrow> \<exists>T. coordinated t T"
  using freshCoords_ordered [of t] by (simp add: coordinated_def)

lemma coordinated_contains:
  assumes "coordinated t T" and "a \<in> set (pre T)" and "b \<in> set (pre T)"
  shows "contains (heap t) a b = isAnc T a b"
proof -
  from assms(1) have d: "distinct (pre T)" by (simp add: coordinated_def shaped_def)
  from assms(1) have "isAnc T a b =
      (q1 (heap t a) < q1 (heap t b) \<and> q2 (heap t b) < q2 (heap t a))"
    by (intro pre_post_anc_iff [OF d _ _ assms(2,3)]) (simp_all add: coordinated_def)
  then show ?thesis by (simp add: contains_def)
qed

lemma coordinated_trans:
  assumes "coordinated t T" and "isAnc T a b" and "isAnc T b c"
  shows "isAnc T a c"
proof -
  from assms(2,3) have m: "a \<in> set (pre T)" "b \<in> set (pre T)" "c \<in> set (pre T)"
    using isAnc_in by blast+
  from assms(2,3) have "contains (heap t) a b" "contains (heap t) b c"
    by (simp_all add: coordinated_contains [OF assms(1)] m)
  then have "contains (heap t) a c" by (simp add: contains_def)
  then show ?thesis by (simp add: coordinated_contains [OF assms(1)] m)
qed

lemma isAnc_root: "x \<in> set (pre T) \<Longrightarrow> x \<noteq> rroot T \<Longrightarrow> isAnc T (rroot T) x"
  by (cases T) auto

lemma rncd_single: "n \<in> set (pre T) \<Longrightarrow> rncd T {n} n"
  by (simp add: rncd_def)

lemma rncd_step:
  assumes co: "coordinated t T" and c: "rncd T S c" and c': "rncd T {c, n} c'"
  shows "rncd T (insert n S) c'"
proof -
  have tr: "x = y \<or> isAnc T x y" if "x = z \<or> isAnc T x z" "z = y \<or> isAnc T z y" for x y z
    using that coordinated_trans [OF co] by blast
  from c' have 1: "c' = c \<or> isAnc T c' c" and 2: "c' = n \<or> isAnc T c' n"
    and 3: "c' \<in> set (pre T)" by (simp_all add: rncd_def)
  have "c' = m \<or> isAnc T c' m" if "m \<in> S" for m
  proof -
    from c that have "c = m \<or> isAnc T c m" by (simp add: rncd_def)
    with 1 show ?thesis by (rule tr)
  qed
  moreover have "d = c' \<or> isAnc T d c'"
    if d: "d \<in> set (pre T)" "\<forall>m \<in> insert n S. d = m \<or> isAnc T d m" for d
  proof -
    from c d have "d = c \<or> isAnc T d c" by (simp add: rncd_def)
    moreover from d(2) have "d = n \<or> isAnc T d n" by simp
    ultimately show ?thesis using c' d(1) by (simp add: rncd_def)
  qed
  ultimately show ?thesis using 2 3 by (simp add: rncd_def)
qed

lemma find_first:
  "find P xs = Some c \<Longrightarrow> \<exists>i < length xs. xs ! i = c \<and> P c \<and> (\<forall>j < i. \<not> P (xs ! j))"
  by (auto simp add: find_Some_iff)

lemma coordinated_findNCD:
  assumes co: "coordinated t T" and a: "a \<in> set (pre T)" and b: "b \<in> set (pre T)"
  shows "\<exists>c. findNCD t a b = Some c \<and> rncd T {a, b} c"
proof -
  from co have sh: "shaped t T" by (simp add: coordinated_def)
  from sh have r: "repr (heap t) T" and d: "distinct (pre T)"
    and n: "parent (heap t (rroot T)) = None" and rt: "rroot T = root t"
    and ids: "\<And>x. x \<in> set (pre T) \<Longrightarrow> nodeId (heap t x) = x"
    by (auto simp add: shaped_def)
  have eq: "equals (heap t) a b = (a = b)"
    using a b by (auto simp add: equals_def ids)
  have cab: "contains (heap t) a b = isAnc T a b" and cba: "contains (heap t) b a = isAnc T b a"
    using a b by (simp_all add: coordinated_contains [OF co])
  consider "a = b" | "a \<noteq> b" "isAnc T a b" | "a \<noteq> b" "\<not> isAnc T a b" "isAnc T b a"
    | "a \<noteq> b" "\<not> isAnc T a b" "\<not> isAnc T b a" by blast
  then show ?thesis
  proof cases
    case 1
    with eq have "equals (heap t) a b" by simp
    then have "findNCD t a b = Some a" by (simp add: findNCD_def)
    moreover from 1 a have "rncd T {a, b} a" by (simp add: rncd_def)
    ultimately show ?thesis by blast
  next
    case 2
    with eq cab have "\<not> equals (heap t) a b" "contains (heap t) a b" by simp_all
    then have "findNCD t a b = Some a" by (simp add: findNCD_def)
    moreover from 2 a have "rncd T {a, b} a" by (simp add: rncd_def)
    ultimately show ?thesis by blast
  next
    case 3
    with eq cab cba have "\<not> equals (heap t) a b" "\<not> contains (heap t) a b"
      "contains (heap t) b a" by simp_all
    then have "findNCD t a b = Some b" by (simp add: findNCD_def)
    moreover from 3 b have "rncd T {a, b} b" by (simp add: rncd_def)
    ultimately show ?thesis by blast
  next
    case 4
    from getAncestryPath_member [OF r d a n] obtain as
      where as: "getAncestryPath (heap t) a = Some (a # as)"
        "\<And>x. x \<in> set as \<longleftrightarrow> isAnc T x a"
        "sorted_wrt (\<lambda>x y. isAnc T y x) (a # as)"
      by blast
    from getAncestryPath_member [OF r d b n] obtain bs
      where bs: "getAncestryPath (heap t) b = Some (b # bs)"
        "\<And>x. x \<in> set bs \<longleftrightarrow> isAnc T x b"
      by blast
    have suba: "set (a # as) \<subseteq> set (pre T)" using a as(2) isAnc_in by auto
    have subb: "set (b # bs) \<subseteq> set (pre T)" using b bs(2) isAnc_in by auto
    let ?P = "\<lambda>ancestor. nodeId (heap t ancestor) \<in> set (map (\<lambda>n. nodeId (heap t n)) (b # bs))"
    have P: "?P x = (x = b \<or> isAnc T x b)" if "x \<in> set (pre T)" for x
    proof -
      have "map (\<lambda>n. nodeId (heap t n)) (b # bs) = map (\<lambda>n. n) (b # bs)"
        by (rule map_cong) (use subb ids in auto)
      then have "?P x = (x \<in> set (b # bs))"
        using that by (simp only: ids) simp
      also have "\<dots> = (x = b \<or> isAnc T x b)" using bs(2) by auto
      finally show ?thesis .
    qed
    have ra: "a \<noteq> rroot T"
    proof
      assume "a = rroot T"
      with 4(1) b isAnc_root [of b T] have "isAnc T a b" by auto
      with 4(2) show False ..
    qed
    have rb: "b \<noteq> rroot T"
    proof
      assume "b = rroot T"
      with 4(1) a isAnc_root [of a T] have "isAnc T b a" by auto
      with 4(3) show False ..
    qed
    have "rroot T \<in> set (a # as)" using isAnc_root [OF a ra] as(2) by simp
    moreover have "?P (rroot T)"
      using isAnc_root [OF b rb] P [OF rroot_in_pre] by simp
    ultimately have "find ?P (a # as) \<noteq> None"
      unfolding find_None_iff by blast
    then obtain c where fc: "find ?P (a # as) = Some c" by blast
    from find_first [OF fc] obtain i
      where i: "i < length (a # as)" "(a # as) ! i = c" "?P c" "\<forall>j < i. \<not> ?P ((a # as) ! j)"
      by blast
    from i(1,2) have cin: "c \<in> set (a # as)" by (metis nth_mem)
    with suba have cT: "c \<in> set (pre T)" by blast
    from cin as(2) have ca: "c = a \<or> isAnc T c a" by auto
    from i(3) P [OF cT] have cb: "c = b \<or> isAnc T c b" by simp
    have deep: "x = c \<or> isAnc T x c"
      if x: "x \<in> set (pre T)" "x = a \<or> isAnc T x a" "x = b \<or> isAnc T x b" for x
    proof -
      from x(2) as(2) have "x \<in> set (a # as)" by auto
      then obtain k where k: "k < length (a # as)" "(a # as) ! k = x"
        by (metis in_set_conv_nth)
      from x(1,3) P [OF x(1)] have "?P x" by simp
      with i(4) k(2) have "\<not> k < i" by blast
      then consider "k = i" | "i < k" by linarith
      then show ?thesis
      proof cases
        case 1
        with k(2) i(2) show ?thesis by simp
      next
        case 2
        with as(3) k have "isAnc T ((a # as) ! k) ((a # as) ! i)"
          unfolding sorted_wrt_iff_nth_less by blast
        with k(2) i(2) show ?thesis by simp
      qed
    qed
    have "rncd T {a, b} c"
      using cT ca cb deep by (simp add: rncd_def)
    moreover have "findNCD t a b = Some c"
      using 4 as(1) bs(1) fc
      by (simp add: findNCD_def Let_def eq cab cba del: find.simps list.map set_simps)
    ultimately show ?thesis by blast
  qed
qed

lemma coordinated_ncdLoop:
  assumes co: "coordinated t T"
  shows "rncd T S c \<Longrightarrow> set ns \<subseteq> set (pre T) \<Longrightarrow>
    \<exists>c'. ncdLoop t c ns = Some c' \<and> rncd T (S \<union> set ns) c'"
proof (induction ns arbitrary: c S)
  case Nil
  then show ?case by simp
next
  case (Cons n ns)
  from Cons.prems have c: "c \<in> set (pre T)" and n: "n \<in> set (pre T)"
    by (simp_all add: rncd_def)
  from coordinated_findNCD [OF co c n] obtain c1
    where c1: "findNCD t c n = Some c1" "rncd T {c, n} c1" by blast
  from rncd_step [OF co Cons.prems(1) c1(2)] have "rncd T (insert n S) c1" .
  from Cons.IH [OF this] Cons.prems(2) obtain c'
    where "ncdLoop t c1 ns = Some c'" "rncd T (insert n S \<union> set ns) c'" by auto
  with c1(1) show ?case by simp
qed

lemma coordinated_findNCDMultiple:
  assumes co: "coordinated t T" and ns: "ns \<noteq> []" "set ns \<subseteq> set (pre T)"
  shows "\<exists>c. findNCDMultiple t ns = Some c \<and> rncd T (set ns) c"
proof -
  from ns(1) obtain n ns' where l: "ns = n # ns'" by (cases ns) auto
  with ns(2) have n: "n \<in> set (pre T)" and ns': "set ns' \<subseteq> set (pre T)" by simp_all
  show ?thesis
  proof (cases ns')
    case Nil
    with l n show ?thesis by (simp add: findNCDMultiple_def rncd_single)
  next
    case (Cons m ms)
    from coordinated_ncdLoop [OF co rncd_single [OF n] ns'] obtain c
      where "ncdLoop t n ns' = Some c" "rncd T ({n} \<union> set ns') c" by blast
    with l Cons show ?thesis by (simp add: findNCDMultiple_def insert_commute)
  qed
qed

lemma shaped_rncd:
  assumes "shaped t T" and "S \<subseteq> set (pre T)" and "rncd T S c"
  shows "nearestCommonDominator t S c"
proof -
  from assms(3) have c: "c \<in> set (pre T)" by (simp add: rncd_def)
  have 1: "dominates (heap t) x n = (x = n \<or> isAnc T x n)" if "n \<in> S" for x n
    using that assms(2) shaped_isAncestor [OF assms(1), of n x] by (auto simp add: dominates_def)
  have 2: "dominates (heap t) x c = (x = c \<or> isAnc T x c)" for x
    using c shaped_isAncestor [OF assms(1), of c x] by (auto simp add: dominates_def)
  from assms(3) show ?thesis
    by (simp add: nearestCommonDominator_def rncd_def shaped_treeNodes [OF assms(1)] 1 2)
qed

section \<open>Properties of the searches\<close>

subsection \<open>The search loops\<close>

lemma searchANDLoop_spec:
  "searchANDLoop t tokens occ allNodes =
     (if \<exists>token \<in> set tokens. xrefGet (xref t) token = [] then None
      else Some (\<lambda>tok. if tok \<in> set tokens then Some (xrefGet (xref t) tok) else occ tok,
                 allNodes @ concat (map (xrefGet (xref t)) tokens)))"
proof (induction tokens arbitrary: occ allNodes)
  case Nil
  then show ?case by simp
next
  case (Cons token tokens)
  have "(\<lambda>tok. if tok \<in> set tokens then Some (xrefGet (xref t) tok)
               else (occ(token \<mapsto> xrefGet (xref t) token)) tok) =
        (\<lambda>tok. if tok \<in> set (token # tokens) then Some (xrefGet (xref t) tok) else occ tok)"
    by (rule ext) simp
  with Cons.IH show ?case by (simp add: Let_def)
qed

lemma searchORLoop_spec:
  "searchORLoop t tokens occ allNodes =
     (\<lambda>tok. if tok \<in> set tokens then Some (xrefGet (xref t) tok) else occ tok,
      allNodes @ concat (map (xrefGet (xref t)) tokens))"
proof (induction tokens arbitrary: occ allNodes)
  case Nil
  then show ?case by simp
next
  case (Cons token tokens)
  have "(\<lambda>tok. if tok \<in> set tokens then Some (xrefGet (xref t) tok)
               else (occ(token \<mapsto> xrefGet (xref t) token)) tok) =
        (\<lambda>tok. if tok \<in> set (token # tokens) then Some (xrefGet (xref t) tok) else occ tok)"
    by (rule ext) simp
  with Cons.IH show ?case by (simp add: Let_def)
qed

lemma dedup_set: "set (dedup seen xs) = set seen \<union> set xs"
  by (induction xs arbitrary: seen) auto

lemma dedup_distinct: "distinct seen \<Longrightarrow> distinct (dedup seen xs)"
  by (induction xs arbitrary: seen) auto

subsection \<open>The dominator of nodes of the tree\<close>

lemma find_Some_member: "find P xs = Some x \<Longrightarrow> x \<in> set xs"
  by (induction xs) (auto split: if_splits)

lemma shaped_findNCD:
  assumes "shaped t T" and "a \<in> set (pre T)" and "b \<in> set (pre T)"
  shows "\<exists>c \<in> set (pre T). findNCD t a b = Some c"
proof -
  from assms(1) have r: "repr (heap t) T" and d: "distinct (pre T)"
    and n: "parent (heap t (rroot T)) = None" and rt: "root t \<in> set (pre T)"
    using rroot_in_pre [of T] by (auto simp add: shaped_def)
  from getAncestryPath_member [OF r d assms(2) n] obtain as
    where as: "getAncestryPath (heap t) a = Some (a # as)" "\<And>x. x \<in> set as \<longleftrightarrow> isAnc T x a"
    by blast
  from getAncestryPath_member [OF r d assms(3) n] obtain bs
    where bs: "getAncestryPath (heap t) b = Some (b # bs)" by blast
  have sub: "set (a # as) \<subseteq> set (pre T)"
    using assms(2) as(2) isAnc_in by auto
  let ?P = "\<lambda>ancestor. nodeId (heap t ancestor) \<in> set (map (\<lambda>n. nodeId (heap t n)) (b # bs))"
  have "\<exists>c \<in> set (pre T). (case find ?P (a # as) of Some ancestor \<Rightarrow> Some ancestor
      | None \<Rightarrow> Some (root t)) = Some c"
  proof (cases "find ?P (a # as)")
    case None
    with rt show ?thesis by simp
  next
    case (Some c)
    then have "c \<in> set (a # as)" by (rule find_Some_member)
    with sub Some show ?thesis by auto
  qed
  with as(1) bs assms(2,3) show ?thesis
    by (simp add: findNCD_def Let_def del: find.simps list.map set_simps)
qed

lemma shaped_ncdLoop:
  assumes "shaped t T"
  shows "c \<in> set (pre T) \<Longrightarrow> set ns \<subseteq> set (pre T) \<Longrightarrow>
    \<exists>c' \<in> set (pre T). ncdLoop t c ns = Some c'"
proof (induction ns arbitrary: c)
  case Nil
  then show ?case by simp
next
  case (Cons n ns)
  from shaped_findNCD [OF assms Cons.prems(1), of n] Cons.prems(2)
  obtain c1 where c1: "c1 \<in> set (pre T)" "findNCD t c n = Some c1" by auto
  from Cons.IH [OF c1(1)] Cons.prems(2) c1(2) show ?case by simp
qed

lemma shaped_findNCDMultiple:
  assumes "shaped t T" and "set ns \<subseteq> set (pre T)"
  shows "\<exists>c \<in> set (pre T). findNCDMultiple t ns = Some c"
proof (cases ns)
  case Nil
  with assms(1) rroot_in_pre [of T] show ?thesis
    by (auto simp add: findNCDMultiple_def shaped_def)
next
  case (Cons n ns')
  show ?thesis
  proof (cases ns')
    case Nil
    with Cons assms(2) show ?thesis by (simp add: findNCDMultiple_def)
  next
    case (Cons m ms)
    with \<open>ns = n # ns'\<close> assms(2) shaped_ncdLoop [OF assms(1), of n ns']
    show ?thesis by (simp add: findNCDMultiple_def)
  qed
qed

subsection \<open>The example trees\<close>

lemma dfsTree_treeNodes: "treeNodes dfsTree = {1, 2, 3, 4, 5}"
proof -
  let ?t0 = "createDTree exampleData"
  let ?t1 = "fst (appendChild ?t0 1 exampleData)"
  let ?t2 = "fst (appendChild ?t1 2 exampleData)"
  let ?t3 = "fst (appendChild ?t2 2 exampleData)"
  have c0: "constructed ?t0" by (rule constructed_create)
  have n0: "treeNodes ?t0 = {1}" by (rule createDTree_treeNodes)
  have c1: "constructed ?t1" by (rule appendChild_constructed [OF c0]) (use n0 in simp)
  have n1: "treeNodes ?t1 = {1, 2}"
    by (subst appendChild_treeNodes [OF c0]) (use n0 in auto)
  have c2: "constructed ?t2" by (rule appendChild_constructed [OF c1]) (use n1 in simp)
  have n2: "treeNodes ?t2 = {1, 2, 3}"
    by (subst appendChild_treeNodes [OF c1]) (use n1 in auto)
  have c3: "constructed ?t3" by (rule appendChild_constructed [OF c2]) (use n2 in simp)
  have n3: "treeNodes ?t3 = {1, 2, 3, 4}"
    by (subst appendChild_treeNodes [OF c2]) (use n2 in auto)
  have "treeNodes (fst (appendChild ?t3 1 exampleData)) = {1, 2, 3, 4, 5}"
    by (subst appendChild_treeNodes [OF c3]) (use n3 in auto)
  then show ?thesis by (simp add: dfsTree_def appendAll_def)
qed

lemma dfsTree_children:
  "children (heap dfsTree 2) = [3, 4]" "children (heap dfsTree 3) = []"
  by (simp_all add: dfsTree_def appendAll_def appendChild_children)

lemma dfsTree_parent:
  "parent (heap dfsTree 3) = Some 2"
  by (simp add: dfsTree_def appendAll_def appendChild_addNode addNode_parent)

lemma normalizedToken_examples:
  "normalizedToken ''alpha'' = ''alpha''" "normalizedToken ''Beta'' = ''beta''"
  "normalizedToken ''beta'' = ''beta''" "normalizedToken ''gamma'' = ''gamma''"
  "normalizedToken ''hello'' = ''hello''"
  by code_simp+

lemma indexedTree_xref:
  "xrefGet (xref indexedTree) ''alpha'' = [3]"
  "xrefGet (xref indexedTree) ''beta'' = [2]"
  "xrefGet (xref indexedTree) ''gamma'' = []"
  by (simp_all add: indexedTree_def Let_def xrefGet_def xrefAdd_def normalizedToken_examples
      dfsTree_def appendAll_def appendChild_addNode createDTree_def)

lemma indexedTree_constructed: "constructed indexedTree"
proof -
  have "constructed dfsTree" by (rule dfsBuilt_constructed [OF dfsTree_dfsBuilt])
  then have "constructed (dfsTree\<lparr>xref := xrefAdd (xref dfsTree) ''alpha'' 3\<rparr>)"
    by (rule constructed_index) (simp add: dfsTree_treeNodes)
  then have "constructed ((dfsTree\<lparr>xref := xrefAdd (xref dfsTree) ''alpha'' 3\<rparr>)
      \<lparr>xref := xrefAdd (xref (dfsTree\<lparr>xref := xrefAdd (xref dfsTree) ''alpha'' 3\<rparr>)) ''Beta'' 2\<rparr>)"
    by (rule constructed_index) (simp add: dfsTree_treeNodes)
  then show ?thesis by (simp add: indexedTree_def Let_def)
qed

lemma indexedTree_heap [simp]: "heap indexedTree = heap dfsTree"
  by (simp add: indexedTree_def Let_def)

lemma recomputed_constructed:
  assumes "constructed t"
  shows "recalculateQ2 t = Some (recomputed t)" and "xref (recomputed t) = xref t"
    and "treeNodes (recomputed t) = treeNodes t"
proof -
  from constructed_shaped [OF assms] obtain T where T: "shaped t T" by blast
  from shaped_recalculateQ2(1) [OF T] show r: "recalculateQ2 t = Some (recomputed t)"
    by (simp add: recomputed_def)
  from shaped_recalculateQ2(1) [OF T] show "xref (recomputed t) = xref t"
    by (simp add: recomputed_def)
  from recalculateQ2_frame(5) [OF T r] show "treeNodes (recomputed t) = treeNodes t" .
qed

lemma indexedTree_dfsBuilt: "dfsBuilt indexedTree"
proof -
  have "dfsBuilt (dfsTree\<lparr>xref := xrefAdd (xref dfsTree) ''alpha'' 3\<rparr>)"
    using dfsTree_dfsBuilt by (rule dfsBuilt_index) (simp add: dfsTree_treeNodes)
  then have "dfsBuilt ((dfsTree\<lparr>xref := xrefAdd (xref dfsTree) ''alpha'' 3\<rparr>)
      \<lparr>xref := xrefAdd (xref (dfsTree\<lparr>xref := xrefAdd (xref dfsTree) ''alpha'' 3\<rparr>)) ''Beta'' 2\<rparr>)"
    by (rule dfsBuilt_index) (simp add: dfsTree_treeNodes)
  then show ?thesis by (simp add: indexedTree_def Let_def)
qed

lemma freshTree_freshCoords: "freshCoords freshTree"
  unfolding freshTree_def
  using indexedTree_dfsBuilt recomputed_constructed(1) [OF indexedTree_constructed]
  by (rule freshCoords_recalculate)

lemma freshTree_xref:
  "xrefGet (xref freshTree) ''alpha'' = [3]"
  "xrefGet (xref freshTree) ''beta'' = [2]"
  "xrefGet (xref freshTree) ''gamma'' = []"
  by (simp_all add: freshTree_def recomputed_constructed(2) [OF indexedTree_constructed]
      indexedTree_xref)

lemma addNode_q2:
  "q2 (heap (fst (addNode t p d after)) x) =
     (if x = nextId t then
        (case after of
           None \<Rightarrow> roundDouble (q2 (heap t p) + INITIAL_SPACING)
         | Some a \<Rightarrow>
             if children (heap t p) = [] then roundDouble (q2 (heap t p) + INITIAL_SPACING)
             else roundDouble (q2 (heap t a) + INITIAL_SPACING))
      else q2 (heap t x))"
  by (simp add: addNode_unfold split: option.split list.split)

lemma roundDouble_54:
  assumes "2 ^ 53 \<le> x" "x < 2 ^ 54"
  shows "roundDouble x = (if even x \<or> even (x div 2) then x div 2 else x div 2 + 1) * 2"
proof -
  from assms have b: "bitLength x = 54" using bitLength_bounds [of 53 x] by simp
  have m: "x mod 2 = 0 \<or> x mod 2 = 1" by presburger
  from assms b m show ?thesis
    by (auto simp add: roundDouble_def Let_def even_iff_mod_2_eq_zero)
qed

lemma interleavedTree_fields:
  "parent (heap interleavedTree 1) = None" "parent (heap interleavedTree 2) = Some 1"
  "parent (heap interleavedTree 3) = Some 1" "parent (heap interleavedTree 4) = Some 2"
  "parent (heap interleavedTree 5) = Some 3"
  "nodeId (heap interleavedTree 1) = 1" "nodeId (heap interleavedTree 2) = 2"
  "nodeId (heap interleavedTree 3) = 3" "nodeId (heap interleavedTree 4) = 4"
  "nodeId (heap interleavedTree 5) = 5"
  "q1 (heap interleavedTree 3) = 2000" "q1 (heap interleavedTree 4) = 3000"
  "root interleavedTree = 1" "nextId interleavedTree = 6" "xref interleavedTree = Map.empty"
  by (simp_all add: interleavedTree_def appendAll_def appendChild_addNode addNode_parent
      addNode_nodeId addNode_q1 INITIAL_SPACING_def createDTree_def)

lemma interleavedTree_children:
  "children (heap interleavedTree 1) = [2, 3]" "children (heap interleavedTree 2) = [4]"
  "children (heap interleavedTree 3) = [5]" "children (heap interleavedTree 4) = []"
  "children (heap interleavedTree 5) = []"
  by (simp_all add: interleavedTree_def appendAll_def appendChild_children)

lemma interleavedTree_shaped:
  "shaped interleavedTree (RNode 1 [RNode 2 [RNode 4 []], RNode 3 [RNode 5 []]])"
  using interleavedTree_fields interleavedTree_children by (simp add: shaped_def)

lemma dfsTree_fields:
  "parent (heap dfsTree 1) = None" "parent (heap dfsTree 2) = Some 1"
  "parent (heap dfsTree 4) = Some 2" "parent (heap dfsTree 5) = Some 1"
  "nodeId (heap dfsTree 4) = 4" "nodeId (heap dfsTree 5) = 5"
  "q1 (heap dfsTree 4) = 3000" "q1 (heap dfsTree 5) = 4000"
  "xref dfsTree = Map.empty"
  by (simp_all add: dfsTree_def appendAll_def appendChild_addNode addNode_parent
      addNode_nodeId addNode_q1 INITIAL_SPACING_def createDTree_def)

lemma crossedTree_heap:
  "heap crossedTree =
     fst (assignQ2 (RNode 1 [RNode 2 [RNode 4 []], RNode 3 [RNode 5 []]]) (heap interleavedTree, 0))"
  "xref (recomputed interleavedTree) = Map.empty"
  using shaped_recalculateQ2(1) [OF interleavedTree_shaped]
  by (simp_all add: crossedTree_def recomputed_def Let_def interleavedTree_fields)

lemma crossedTree_xref:
  "xrefGet (xref crossedTree) ''alpha'' = [3]" "xrefGet (xref crossedTree) ''beta'' = [4]"
  by (simp_all add: crossedTree_def Let_def crossedTree_heap(2) xrefGet_def xrefAdd_def
      normalizedToken_examples)

lemma crossedTree_fields:
  "parent (heap crossedTree 4) = Some 2" "parent (heap crossedTree 2) = Some 1"
  "parent (heap crossedTree 1) = None"
  "nodeId (heap crossedTree 3) = 3" "nodeId (heap crossedTree 4) = 4"
  "q1 (heap crossedTree 3) = 2000" "q1 (heap crossedTree 4) = 3000"
  using interleavedTree_fields by (simp_all add: crossedTree_heap(1))

lemma crossedTree_q2:
  "q2 (heap crossedTree 3) = 4000" "q2 (heap crossedTree 4) = 1000"
  by (simp_all add: crossedTree_heap(1) INITIAL_SPACING_def)

lemma crossed_findNCD: "findNCD crossedTree 3 4 = Some 3"
  by (simp add: findNCD_def equals_def contains_def crossedTree_fields crossedTree_q2)

lemma crossed_search:
  "map_option (map_option contextNode) (searchAND crossedTree [''alpha'', ''beta'']) = Some (Some 3)"
  by (simp add: searchAND_def searchANDLoop_spec crossedTree_xref findNCDMultiple_def crossed_findNCD)

lemma crossed_not_dominates: "\<not> dominates (heap crossedTree) 3 4"
  using crossedTree_fields
  by (simp add: dominates_def isAncestor_def getAncestryPath_def ancestryLoop_Some ancestryLoop_None)

lemma dfsTree_q2:
  "q2 (heap dfsTree 4) = 9007199254743992" "q2 (heap dfsTree 5) = 9007199254742992"
  by (simp_all add: dfsTree_def appendAll_def appendChild_addNode addNode_q2 addNode_children
      splice_insert INITIAL_SPACING_def roundDouble_54 createDTree_def MAX_SAFE_INTEGER_def)

lemma staleTree_xref:
  "xrefGet (xref staleTree) ''alpha'' = [4]" "xrefGet (xref staleTree) ''beta'' = [5]"
  by (simp_all add: staleTree_def Let_def dfsTree_fields xrefGet_def xrefAdd_def
      normalizedToken_examples)

lemma staleTree_heap [simp]: "heap staleTree = heap dfsTree"
  by (simp add: staleTree_def Let_def)

lemma stale_findNCD: "findNCD staleTree 4 5 = Some 4"
  by (simp add: findNCD_def equals_def contains_def dfsTree_fields dfsTree_q2)

lemma stale_search:
  "map_option (map_option contextNode) (searchAND staleTree [''alpha'', ''beta'']) = Some (Some 4)"
  by (simp add: searchAND_def searchANDLoop_spec staleTree_xref findNCDMultiple_def stale_findNCD)

lemma stale_not_dominates: "\<not> dominates (heap staleTree) 4 5"
  using dfsTree_fields
  by (simp add: dominates_def isAncestor_def getAncestryPath_def ancestryLoop_Some ancestryLoop_None)

subsection \<open>Claims on the searches\<close>

text \<open>
  C3. \<open>searchAND(tokens)\<close> returns \<open>null\<close> when some token of the list has no
  occurrence; the dominator is not computed, the loop returns first: this holds on every
  store, also on one where \<open>findNCDMultiple\<close> would not return. Otherwise, on every
  tree constructed through the interface, it returns a node of the tree together with the
  occurrence list of each token. On a tree built in complete-subtree order on which
  \<open>recalculateQ2\<close> has run after the last insertion, that node is the nearest common
  dominator of the occurrence nodes of all the tokens: it is an ancestor-or-self of each
  of them, and every node of the tree that is so is an ancestor-or-self of it. For an
  empty list the result is the root.
\<close>
theorem searchAND_result:
  "((\<exists>token \<in> set tokens. xrefGet (xref t) token = []) \<longrightarrow> searchAND t tokens = Some None) \<and>
   (constructed t \<and> (\<forall>token \<in> set tokens. xrefGet (xref t) token \<noteq> []) \<longrightarrow>
      (\<exists>ctx \<in> treeNodes t. searchAND t tokens =
         Some (Some \<lparr>contextNode = ctx,
           occurrences = (\<lambda>tok. if tok \<in> set tokens
                                 then Some (xrefGet (xref t) tok) else None)\<rparr>))) \<and>
   (freshCoords t \<and> tokens \<noteq> [] \<and> (\<forall>token \<in> set tokens. xrefGet (xref t) token \<noteq> []) \<longrightarrow>
      (\<exists>ctx. searchAND t tokens =
         Some (Some \<lparr>contextNode = ctx,
           occurrences = (\<lambda>tok. if tok \<in> set tokens
                                 then Some (xrefGet (xref t) tok) else None)\<rparr>) \<and>
         nearestCommonDominator t (\<Union>token \<in> set tokens. set (xrefGet (xref t) token)) ctx)) \<and>
   searchAND t [] = Some (Some \<lparr>contextNode = root t, occurrences = Map.empty\<rparr>)"
proof (intro conjI impI)
  assume "\<exists>token \<in> set tokens. xrefGet (xref t) token = []"
  then show "searchAND t tokens = Some None"
    by (simp add: searchAND_def searchANDLoop_spec)
next
  assume a: "constructed t \<and> (\<forall>token \<in> set tokens. xrefGet (xref t) token \<noteq> [])"
  from constructed_shaped [of t] a obtain T where T: "shaped t T" by blast
  have "set (concat (map (xrefGet (xref t)) tokens)) \<subseteq> set (pre T)"
    using constructed_xref [of t] a shaped_treeNodes [OF T] by auto
  from shaped_findNCDMultiple [OF T this] obtain ctx
    where "ctx \<in> set (pre T)"
      "findNCDMultiple t (concat (map (xrefGet (xref t)) tokens)) = Some ctx" by blast
  with a show "\<exists>ctx \<in> treeNodes t. searchAND t tokens =
         Some (Some \<lparr>contextNode = ctx,
           occurrences = (\<lambda>tok. if tok \<in> set tokens
                                 then Some (xrefGet (xref t) tok) else None)\<rparr>)"
    by (simp add: searchAND_def searchANDLoop_spec shaped_treeNodes [OF T])
next
  assume a: "freshCoords t \<and> tokens \<noteq> [] \<and> (\<forall>token \<in> set tokens. xrefGet (xref t) token \<noteq> [])"
  let ?all = "concat (map (xrefGet (xref t)) tokens)"
  from a freshCoords_coordinated [of t] obtain T where co: "coordinated t T" by blast
  then have T: "shaped t T" by (simp add: coordinated_def)
  from a have c: "constructed t" by (simp add: freshCoords_constructed)
  have sub: "set ?all \<subseteq> set (pre T)"
    using constructed_xref [OF c] shaped_treeNodes [OF T] by auto
  from a obtain token where "token \<in> set tokens" "xrefGet (xref t) token \<noteq> []"
    by (cases tokens) auto
  then have ne: "?all \<noteq> []" by auto
  from coordinated_findNCDMultiple [OF co ne sub] obtain ctx
    where ctx: "findNCDMultiple t ?all = Some ctx" "rncd T (set ?all) ctx" by blast
  have "set ?all = (\<Union>token \<in> set tokens. set (xrefGet (xref t) token))" by auto
  with shaped_rncd [OF T sub ctx(2)]
  have "nearestCommonDominator t (\<Union>token \<in> set tokens. set (xrefGet (xref t) token)) ctx"
    by simp
  with a ctx(1) show "\<exists>ctx. searchAND t tokens =
         Some (Some \<lparr>contextNode = ctx,
           occurrences = (\<lambda>tok. if tok \<in> set tokens
                                 then Some (xrefGet (xref t) tok) else None)\<rparr>) \<and>
         nearestCommonDominator t (\<Union>token \<in> set tokens. set (xrefGet (xref t) token)) ctx"
    by (simp add: searchAND_def searchANDLoop_spec)
next
  show "searchAND t [] = Some (Some \<lparr>contextNode = root t, occurrences = Map.empty\<rparr>)"
    by (simp add: searchAND_def findNCDMultiple_def)
qed

theorem searchAND_result_witness:
  "freshCoords freshTree \<and> constructed freshTree \<and>
   xrefGet (xref freshTree) ''alpha'' = [3] \<and> xrefGet (xref freshTree) ''beta'' = [2] \<and>
   xrefGet (xref freshTree) ''gamma'' = [] \<and>
   searchAND freshTree [''alpha'', ''gamma''] = Some None \<and>
   (\<exists>ctx \<in> treeNodes freshTree. searchAND freshTree [''alpha'', ''beta''] =
      Some (Some \<lparr>contextNode = ctx,
        occurrences = (\<lambda>tok. if tok \<in> set [''alpha'', ''beta'']
                              then Some (xrefGet (xref freshTree) tok) else None)\<rparr>) \<and>
      nearestCommonDominator freshTree {2, 3} ctx)"
proof -
  note f = freshTree_freshCoords
  note c = freshCoords_constructed [OF f]
  from searchAND_result [of "[''alpha'', ''gamma'']" freshTree]
  have 1: "searchAND freshTree [''alpha'', ''gamma''] = Some None"
    by (simp add: freshTree_xref)
  from searchAND_result [of "[''alpha'', ''beta'']" freshTree] f c
  obtain ctx where 2: "searchAND freshTree [''alpha'', ''beta''] =
      Some (Some \<lparr>contextNode = ctx,
        occurrences = (\<lambda>tok. if tok \<in> set [''alpha'', ''beta'']
                              then Some (xrefGet (xref freshTree) tok) else None)\<rparr>)"
    "nearestCommonDominator freshTree {2, 3} ctx"
    by (auto simp add: freshTree_xref)
  from 2(2) have "ctx \<in> treeNodes freshTree" by (simp add: nearestCommonDominator_def)
  with f c 1 2 show ?thesis by (auto simp add: freshTree_xref)
qed

text \<open>
  C3, counterexamples to the claim as stated. \<open>crossedTree\<close> was recomputed but not
  built in complete-subtree order: for the occurrence nodes 3 and 4 \<open>searchAND\<close> returns
  node 3, which does not dominate node 4 (the parent of node 4 is node 2).
  \<open>staleTree\<close> was built in complete-subtree order but never recomputed: for the
  occurrence nodes 4 and 5 \<open>searchAND\<close> returns node 4, which does not dominate node 5
  (the parent of node 5 is the root).
\<close>
theorem searchAND_not_dominator_counterexample:
  "xrefGet (xref crossedTree) ''alpha'' = [3] \<and> xrefGet (xref crossedTree) ''beta'' = [4] \<and>
   map_option (map_option contextNode) (searchAND crossedTree [''alpha'', ''beta'']) = Some (Some 3) \<and>
   parent (heap crossedTree 4) = Some 2 \<and> parent (heap crossedTree 2) = Some 1 \<and>
   parent (heap crossedTree 1) = None \<and>
   \<not> dominates (heap crossedTree) 3 4 \<and>
   xrefGet (xref staleTree) ''alpha'' = [4] \<and> xrefGet (xref staleTree) ''beta'' = [5] \<and>
   map_option (map_option contextNode) (searchAND staleTree [''alpha'', ''beta'']) = Some (Some 4) \<and>
   parent (heap staleTree 5) = Some 1 \<and> parent (heap staleTree 1) = None \<and>
   \<not> dominates (heap staleTree) 4 5"
  using crossedTree_xref crossed_search crossedTree_fields(1-3) crossed_not_dominates
    staleTree_xref stale_search dfsTree_fields(1,4) stale_not_dominates
  by simp

text \<open>
  C9. \<open>searchOR(tokens)\<close> returns a duplicate-free list of contexts and the occurrence
  list of each token. A node is a context exactly when it is the parent of an occurrence
  node that is a leaf, or an occurrence node that is a leaf without parent, or an
  occurrence node that is not a leaf.
\<close>
theorem searchOR_result:
  "distinct (contexts (searchOR t tokens)) \<and>
   (\<forall>c. c \<in> set (contexts (searchOR t tokens)) \<longleftrightarrow>
      (\<exists>n \<in> set (concat (map (xrefGet (xref t)) tokens)).
         if isLeaf (heap t) n
         then parent (heap t n) = Some c \<or> (parent (heap t n) = None \<and> c = n)
         else c = n)) \<and>
   orOccurrences (searchOR t tokens) =
     (\<lambda>tok. if tok \<in> set tokens then Some (xrefGet (xref t) tok) else None)"
proof -
  let ?all = "concat (map (xrefGet (xref t)) tokens)"
  have lift: "(liftLeaf (heap t) n = c) =
      (if isLeaf (heap t) n
       then parent (heap t n) = Some c \<or> (parent (heap t n) = None \<and> c = n)
       else c = n)" for n c
    by (auto simp add: liftLeaf_def split: option.splits)
  have ctx: "contexts (searchOR t tokens) = dedup [] (map (liftLeaf (heap t)) ?all)"
    and occ: "orOccurrences (searchOR t tokens) =
      (\<lambda>tok. if tok \<in> set tokens then Some (xrefGet (xref t) tok) else None)"
    by (simp_all add: searchOR_def searchORLoop_spec)
  have "distinct (contexts (searchOR t tokens))"
    unfolding ctx by (rule dedup_distinct) simp
  moreover have "c \<in> set (contexts (searchOR t tokens)) \<longleftrightarrow>
      (\<exists>n \<in> set ?all.
         if isLeaf (heap t) n
         then parent (heap t n) = Some c \<or> (parent (heap t n) = None \<and> c = n)
         else c = n)" for c
  proof -
    have "c \<in> set (contexts (searchOR t tokens)) \<longleftrightarrow> (\<exists>n \<in> set ?all. liftLeaf (heap t) n = c)"
      unfolding ctx dedup_set by auto
    then show ?thesis unfolding lift .
  qed
  ultimately show ?thesis using occ by blast
qed

theorem searchOR_result_witness:
  "distinct (contexts (searchOR indexedTree [''alpha'', ''beta''])) \<and>
   2 \<in> set (contexts (searchOR indexedTree [''alpha'', ''beta''])) \<and>
   3 \<notin> set (contexts (searchOR indexedTree [''alpha'', ''beta'']))"
  using searchOR_result [of indexedTree "[''alpha'', ''beta'']"]
  by (simp add: indexedTree_xref isLeaf_def dfsTree_children dfsTree_parent)

text \<open>
  C9, counterexample to the claim as stated: in a tree of the root alone, the root is a
  leaf and an occurrence node, it has no parent, and it is returned as its own context.
\<close>
theorem searchOR_root_leaf_counterexample:
  "1 \<in> set (xrefGet (xref rootIndexedTree) ''hello'') \<and>
   isLeaf (heap rootIndexedTree) 1 \<and>
   parent (heap rootIndexedTree 1) = None \<and>
   contexts (searchOR rootIndexedTree [''hello'']) = [1]"
  by (simp add: rootIndexedTree_def Let_def createDTree_def xrefGet_def xrefAdd_def
      normalizedToken_examples isLeaf_def searchOR_def liftLeaf_def)

section \<open>Properties of the removal\<close>

lemma indexedTree_treeNodes: "treeNodes indexedTree = {1, 2, 3, 4, 5}"
  using dfsTree_treeNodes by (simp add: indexedTree_def Let_def)

lemma indexedTree_root: "root indexedTree = 1"
  by (simp add: indexedTree_def Let_def dfsTree_def appendAll_def)

subsection \<open>Claim on the removal\<close>

text \<open>
  C8. On a tree constructed through the interface, \<open>removeNode\<close> of the root fails with
  the root-removal error and leaves the tree as it was. For every other node \<open>n\<close> of the
  tree, with parent \<open>p\<close> and subtree \<open>sub = n.getSubtree()\<close> (the node and its
  descendants), \<open>removeNode\<close> returns and
  leaves a tree in which: the children of \<open>p\<close> are the former ones without \<open>n\<close>, and the
  children of every other node and the parent of every node are as before; the nodes of
  the tree are the former ones without those of \<open>sub\<close>; the sibling references of the
  children of \<open>p\<close>, and of every node of the tree, form a doubly linked list; and the
  cross-reference index holds, for every token, the former occurrence list without the
  nodes of \<open>sub\<close>, so a lookup returns exactly the former occurrences outside the removed
  subtree.
\<close>
theorem removeNode_result:
  assumes "constructed t"
  shows "removeNode t (root t) = Some (Inl RootRemovalForbidden, t) \<and>
    (\<forall>n \<in> treeNodes t. n \<noteq> root t \<longrightarrow>
       (\<exists>t' sub p. removeNode t n = Some (Inr (), t') \<and>
          getSubtree (heap t) n = Some sub \<and> set sub \<subseteq> treeNodes t \<and>
          (\<forall>d. d \<in> set sub \<longleftrightarrow> d = n \<or> isDescendant (heap t) d n) \<and>
          parent (heap t n) = Some p \<and> p \<in> treeNodes t \<and> n \<in> set (children (heap t p)) \<and>
          children (heap t' p) = remove1 n (children (heap t p)) \<and>
          n \<notin> set (children (heap t' p)) \<and>
          (\<forall>x. x \<noteq> p \<longrightarrow> children (heap t' x) = children (heap t x)) \<and>
          (\<forall>x. parent (heap t' x) = parent (heap t x)) \<and>
          root t' = root t \<and>
          treeNodes t' = treeNodes t - set sub \<and>
          siblingsLinked (heap t') (children (heap t' p)) \<and>
          (\<forall>x \<in> treeNodes t'. siblingsLinked (heap t') (children (heap t' x))) \<and>
          (\<forall>token. xref t' token = map_option (filter (\<lambda>x. x \<notin> set sub)) (xref t token)) \<and>
          (\<forall>token. xrefGet (xref t') token =
                     filter (\<lambda>x. x \<notin> set sub) (xrefGet (xref t) token))))"
proof -
  from constructed_linked [OF assms] obtain T where sh: "shaped t T" and wl: "wellLinked t T"
    by blast
  from sh have r: "repr (heap t) T" and dT: "distinct (pre T)" and rt: "rroot T = root t"
    and pr: "parent (heap t (root t)) = None"
    by (simp_all add: shaped_def)
  have root: "removeNode t (root t) = Some (Inl RootRemovalForbidden, t)"
    using pr by (rule removeNode_root)
  have "\<exists>t' sub p. removeNode t n = Some (Inr (), t') \<and>
          getSubtree (heap t) n = Some sub \<and> set sub \<subseteq> treeNodes t \<and>
          (\<forall>d. d \<in> set sub \<longleftrightarrow> d = n \<or> isDescendant (heap t) d n) \<and>
          parent (heap t n) = Some p \<and> p \<in> treeNodes t \<and> n \<in> set (children (heap t p)) \<and>
          children (heap t' p) = remove1 n (children (heap t p)) \<and>
          n \<notin> set (children (heap t' p)) \<and>
          (\<forall>x. x \<noteq> p \<longrightarrow> children (heap t' x) = children (heap t x)) \<and>
          (\<forall>x. parent (heap t' x) = parent (heap t x)) \<and>
          root t' = root t \<and>
          treeNodes t' = treeNodes t - set sub \<and>
          siblingsLinked (heap t') (children (heap t' p)) \<and>
          (\<forall>x \<in> treeNodes t'. siblingsLinked (heap t') (children (heap t' x))) \<and>
          (\<forall>token. xref t' token = map_option (filter (\<lambda>x. x \<notin> set sub)) (xref t token)) \<and>
          (\<forall>token. xrefGet (xref t') token =
                     filter (\<lambda>x. x \<notin> set sub) (xrefGet (xref t) token))"
    if n: "n \<in> treeNodes t" "n \<noteq> root t" for n
  proof -
    from n(1) have nT: "n \<in> set (pre T)" by (simp add: shaped_treeNodes [OF sh])
    from repr_parent [OF r nT] n(2) rt obtain p
      where p: "p \<in> set (pre T)" "parent (heap t n) = Some p"
        "n \<in> set (children (heap t p))" by auto
    from getSubtree_member [OF r dT nT] obtain ns
      where sub: "getSubtree (heap t) n = Some (n # ns)"
        and ns: "\<And>d. d \<in> set ns \<longleftrightarrow> isAnc T n d" by blast
    from removeNode_Some [OF p(2) sub] obtain t'
      where t': "removeNode t n = Some (Inr (), t')" by blast
    from removeNode_shaped [OF sh nT t'] sub p(2)
    have sh': "shaped t' (rremove n T)"
      and nodes: "set (pre (rremove n T)) = set (pre T) - set (n # ns)"
      and x': "xref t' = xref (purge (n # ns) t)" and r': "root t' = root t"
      and p': "\<And>x. parent (heap t' x) = parent (heap t x)"
      and cp: "children (heap t' p) = remove1 n (children (heap t p))"
      and co: "\<And>x. x \<noteq> p \<Longrightarrow> children (heap t' x) = children (heap t x)"
      by auto
    from removeNode_wellLinked [OF sh wl nT t'] p(2)
    have wl': "wellLinked t' (rremove n T)"
      and lp: "siblingsLinked (heap t') (children (heap t' p))" by simp_all
    have dcs: "distinct (children (heap t p))" by (rule repr_children_distinct [OF r dT p(1)])
    then have nin: "n \<notin> set (children (heap t' p))" by (simp add: cp)
    have subT: "set (n # ns) \<subseteq> treeNodes t"
      using nT ns isAnc_in [of T n] by (auto simp add: shaped_treeNodes [OF sh])
    have tn: "treeNodes t' = treeNodes t - set (n # ns)"
      by (simp only: shaped_treeNodes [OF sh'] shaped_treeNodes [OF sh] nodes)
    have all: "\<forall>x \<in> treeNodes t'. siblingsLinked (heap t') (children (heap t' x))"
      using wl' by (simp add: wellLinked_def shaped_treeNodes [OF sh'])
    have xm: "xref t' token = map_option (filter (\<lambda>x. x \<notin> set (n # ns))) (xref t token)"
      for token
      unfolding x' by (rule purge_xref_filter)
    have xg: "xrefGet (xref t') token = filter (\<lambda>x. x \<notin> set (n # ns)) (xrefGet (xref t) token)"
      for token
      using xm [of "normalizedToken token"] by (simp add: xrefGet_def split: option.splits)
    have pT: "p \<in> treeNodes t" using p(1) by (simp add: shaped_treeNodes [OF sh])
    have ds: "\<forall>d. d \<in> set (n # ns) \<longleftrightarrow> d = n \<or> isDescendant (heap t) d n"
      by (simp add: isDescendant_def sub)
    show ?thesis
      apply (rule exI [of _ t'], rule exI [of _ "n # ns"], rule exI [of _ p])
      using t' sub subT ds p(2,3) pT cp nin co p' r' tn lp all xm xg
      apply (intro conjI)
      apply (simp_all del: set_simps list.set)
      done
  qed
  with root show ?thesis by blast
qed

theorem removeNode_result_witness:
  "constructed indexedTree \<and> 2 \<in> treeNodes indexedTree \<and> 2 \<noteq> root indexedTree \<and>
   removeNode indexedTree (root indexedTree) = Some (Inl RootRemovalForbidden, indexedTree) \<and>
   (\<exists>t' sub p. removeNode indexedTree 2 = Some (Inr (), t') \<and>
      getSubtree (heap indexedTree) 2 = Some sub \<and> set sub \<subseteq> treeNodes indexedTree \<and>
      (\<forall>d. d \<in> set sub \<longleftrightarrow> d = 2 \<or> isDescendant (heap indexedTree) d 2) \<and>
      parent (heap indexedTree 2) = Some p \<and> p \<in> treeNodes indexedTree \<and>
      2 \<in> set (children (heap indexedTree p)) \<and>
      children (heap t' p) = remove1 2 (children (heap indexedTree p)) \<and>
      2 \<notin> set (children (heap t' p)) \<and>
      (\<forall>x. x \<noteq> p \<longrightarrow> children (heap t' x) = children (heap indexedTree x)) \<and>
      (\<forall>x. parent (heap t' x) = parent (heap indexedTree x)) \<and>
      root t' = root indexedTree \<and>
      treeNodes t' = treeNodes indexedTree - set sub \<and>
      siblingsLinked (heap t') (children (heap t' p)) \<and>
      (\<forall>x \<in> treeNodes t'. siblingsLinked (heap t') (children (heap t' x))) \<and>
      (\<forall>token. xref t' token = map_option (filter (\<lambda>x. x \<notin> set sub)) (xref indexedTree token)) \<and>
      (\<forall>token. xrefGet (xref t') token =
                 filter (\<lambda>x. x \<notin> set sub) (xrefGet (xref indexedTree) token)))"
proof -
  have n: "2 \<in> treeNodes indexedTree" "2 \<noteq> root indexedTree"
    by (simp_all add: indexedTree_treeNodes indexedTree_root)
  from removeNode_result [OF indexedTree_constructed] n indexedTree_constructed
  show ?thesis by blast
qed

end
